theory Spec2Isabelle
  imports Main "HOL-Library.Sublist" "HOL-Library.Char_ord" "HOL-Library.List_Lexorder"
begin

section \<open>Strings\<close>

text \<open>
  A JavaScript string is a sequence of UTF-16 code units. The model uses \<^typ>\<open>string\<close>;
  a \<^typ>\<open>char\<close> stands for a code unit below 256. Equality, concatenation, slicing,
  splitting and the default order of \<^verbatim>\<open>Array.prototype.sort\<close> (code unit by code unit)
  are the same on both sides.
\<close>

definition NL :: char where
  "NL = CHR 0x0A"

definition CR :: char where
  "CR = CHR 0x0D"

definition BSL :: char where
  "BSL = CHR 0x5C"

definition SLASH :: char where
  "SLASH = CHR ''/''"

text \<open>\<^verbatim>\<open>String.prototype.trim\<close>: white space and line terminators, here those below 256
  (TAB, LF, VT, FF, CR, SP, NBSP).\<close>

definition is_ws :: "char \<Rightarrow> bool" where
  "is_ws c = (c \<in> set [CHR 0x09, CHR 0x0A, CHR 0x0B, CHR 0x0C, CHR 0x0D, CHR 0x20, CHR 0xA0])"

definition trim :: "string \<Rightarrow> string" where
  "trim s = rev (dropWhile is_ws (rev (dropWhile is_ws s)))"

text \<open>\<^verbatim>\<open>s.includes(t)\<close>.\<close>

fun includes_str :: "string \<Rightarrow> string \<Rightarrow> bool" where
  "includes_str [] t = (t = [])"
| "includes_str (c # cs) t = (prefix t (c # cs) \<or> includes_str cs t)"

text \<open>\<^verbatim>\<open>s.split(sep)\<close> for a non-empty separator: the pieces between the occurrences of
  \<open>sep\<close>, found from left to right without overlap. The first argument collects the current
  piece.\<close>

fun split_from :: "string \<Rightarrow> string \<Rightarrow> string \<Rightarrow> string list" where
  "split_from sep cur [] = [cur]"
| "split_from sep cur (c # cs) =
     (if sep \<noteq> [] \<and> prefix sep (c # cs)
      then cur # split_from sep [] (drop (length sep - 1) cs)
      else split_from sep (cur @ [c]) cs)"

definition split :: "string \<Rightarrow> string \<Rightarrow> string list" where
  "split sep s = split_from sep [] s"

text \<open>\<^verbatim>\<open>xs.join(sep)\<close>.\<close>

fun join :: "string \<Rightarrow> string list \<Rightarrow> string" where
  "join sep [] = []"
| "join sep [x] = x"
| "join sep (x # y # ys) = x @ sep @ join sep (y # ys)"

text \<open>\<^verbatim>\<open>s.replace(/lit/g, rep)\<close> for a non-empty literal \<open>lit\<close> and a replacement without
  \<^verbatim>\<open>$\<close>: every occurrence, from left to right without overlap.\<close>

fun replace_all :: "string \<Rightarrow> string \<Rightarrow> string \<Rightarrow> string" where
  "replace_all lit rep [] = []"
| "replace_all lit rep (c # cs) =
     (if lit \<noteq> [] \<and> prefix lit (c # cs)
      then rep @ replace_all lit rep (drop (length lit - 1) cs)
      else c # replace_all lit rep cs)"

section \<open>Regular expressions\<close>

text \<open>
  The fragment of JavaScript regular expressions that \<^verbatim>\<open>matchesGlob\<close> hands to
  \<^verbatim>\<open>new RegExp\<close>: the assertions \<^verbatim>\<open>^\<close> and \<^verbatim>\<open>$\<close> (no \<^verbatim>\<open>m\<close> flag), a
  literal character, an escaped syntax character, \<^verbatim>\<open>.\<close> (any character but a line
  terminator, no \<^verbatim>\<open>s\<close> flag), the class \<^verbatim>\<open>[^/]\<close>, and the quantifiers \<^verbatim>\<open>*\<close> and
  \<^verbatim>\<open>?\<close>, each optionally followed by the laziness mark \<^verbatim>\<open>?\<close>. A quantifier with no
  atom before it is the SyntaxError "Nothing to repeat". Anything else is outside the
  fragment.
\<close>

datatype error = SyntaxError | OutsideFragment | CommandFailed | ReadFailed

datatype atom = Lit char | Dot | NotSlash

datatype quant = Once | Opt | Many

datatype regex_term = Bol | Eol | Atom atom quant

definition syntax_chars :: string where
  "syntax_chars = [CHR ''^'', CHR ''$'', BSL, CHR ''.'', CHR ''*'', CHR ''+'', CHR ''?'',
     CHR ''('', CHR '')'', CHR ''['', CHR '']'', CHR ''{'', CHR ''}'', CHR ''|'']"

fun parse_atom :: "string \<Rightarrow> (atom \<times> string) option" where
  "parse_atom [] = None"
| "parse_atom (c # cs) =
     (if c = BSL then
        (case cs of [] \<Rightarrow> None
         | d # ds \<Rightarrow> if d \<in> set syntax_chars then Some (Lit d, ds) else None)
      else if c = CHR ''.'' then Some (Dot, cs)
      else if c = CHR ''['' then
        (if take 3 cs = [CHR ''^'', SLASH, CHR '']''] then Some (NotSlash, drop 3 cs) else None)
      else if c \<in> set syntax_chars then None
      else Some (Lit c, cs))"

fun parse_quant :: "string \<Rightarrow> quant \<times> string" where
  "parse_quant [] = (Once, [])"
| "parse_quant (c # cs) =
     (if c = CHR ''*'' \<or> c = CHR ''?'' then
        (if c = CHR ''*'' then Many else Opt,
         case cs of [] \<Rightarrow> [] | d # ds \<Rightarrow> if d = CHR ''?'' then ds else d # ds)
      else (Once, c # cs))"

lemma parse_atom_shorter: "parse_atom s = Some (a, r) \<Longrightarrow> length r < length s"
  by (cases s) (auto split: if_splits list.splits)

lemma parse_quant_shorter: "parse_quant s = (q, r) \<Longrightarrow> length r \<le> length s"
  by (cases s) (auto split: if_splits list.splits)

function parse_regex :: "string \<Rightarrow> error + regex_term list" where
  "parse_regex [] = Inr []"
| "parse_regex (c # cs) =
     (if c = CHR ''^'' then
        (case parse_regex cs of Inl e \<Rightarrow> Inl e | Inr ts \<Rightarrow> Inr (Bol # ts))
      else if c = CHR ''$'' then
        (case parse_regex cs of Inl e \<Rightarrow> Inl e | Inr ts \<Rightarrow> Inr (Eol # ts))
      else if c = CHR ''*'' \<or> c = CHR ''?'' \<or> c = CHR ''+'' then Inl SyntaxError
      else
        (case parse_atom (c # cs) of
           None \<Rightarrow> Inl OutsideFragment
         | Some (a, r) \<Rightarrow>
             (case parse_quant r of (q, r') \<Rightarrow>
                (case parse_regex r' of Inl e \<Rightarrow> Inl e | Inr ts \<Rightarrow> Inr (Atom a q # ts)))))"
  by pat_completeness auto
termination
proof (relation "measure length")
  fix c cs x2 a r q r'
  assume "parse_atom (c # cs) = Some x2" "(a, r) = x2" "(q, r') = parse_quant r"
  then have "length r < length (c # cs)" "length r' \<le> length r"
    using parse_atom_shorter [of "c # cs" a r] parse_quant_shorter [of r q r'] by auto
  then show "(r', c # cs) \<in> measure length" by simp
qed auto

fun atom_ok :: "atom \<Rightarrow> char \<Rightarrow> bool" where
  "atom_ok (Lit d) c = (c = d)"
| "atom_ok Dot c = (c \<noteq> NL \<and> c \<noteq> CR)"
| "atom_ok NotSlash c = (c \<noteq> SLASH)"

text \<open>\<open>match_here ts at_start s\<close>: the terms \<open>ts\<close> match some prefix of the remaining input
  \<open>s\<close>; \<open>at_start\<close> says that no input has been consumed before \<open>s\<close>.\<close>

fun match_here :: "regex_term list \<Rightarrow> bool \<Rightarrow> string \<Rightarrow> bool" where
  "match_here [] b s = True"
| "match_here (Bol # ts) b s = (b \<and> match_here ts b s)"
| "match_here (Eol # ts) b s = (s = [] \<and> match_here ts b s)"
| "match_here (Atom a Once # ts) b [] = False"
| "match_here (Atom a Once # ts) b (c # cs) = (atom_ok a c \<and> match_here ts False cs)"
| "match_here (Atom a Opt # ts) b [] = match_here ts b []"
| "match_here (Atom a Opt # ts) b (c # cs) =
     ((atom_ok a c \<and> match_here ts False cs) \<or> match_here ts b (c # cs))"
| "match_here (Atom a Many # ts) b [] = match_here ts b []"
| "match_here (Atom a Many # ts) b (c # cs) =
     ((atom_ok a c \<and> match_here (Atom a Many # ts) False cs) \<or> match_here ts b (c # cs))"

text \<open>\<^verbatim>\<open>re.test(s)\<close>: a match starting at some position of \<open>s\<close>.\<close>

fun search :: "regex_term list \<Rightarrow> bool \<Rightarrow> string \<Rightarrow> bool" where
  "search ts b [] = match_here ts b []"
| "search ts b (c # cs) = (match_here ts b (c # cs) \<or> search ts False cs)"

definition regexp_test :: "regex_term list \<Rightarrow> string \<Rightarrow> bool" where
  "regexp_test ts s = search ts True s"

section \<open>Glob matcher\<close>

text \<open>Node's \<^verbatim>\<open>path.basename\<close> on POSIX: the last segment of the path, trailing slashes
  ignored.\<close>

definition basename :: "string \<Rightarrow> string" where
  "basename p =
     rev (takeWhile (\<lambda>c. c \<noteq> SLASH) (dropWhile (\<lambda>c. c = SLASH) (rev p)))"

text \<open>The characters of the class \<^verbatim>\<open>[.+^${}()|[\]\\]\<close>.\<close>

definition escaped_chars :: string where
  "escaped_chars = [CHR ''.'', CHR ''+'', CHR ''^'', CHR ''$'', CHR ''{'', CHR ''}'',
     CHR ''('', CHR '')'', CHR ''|'', CHR ''['', CHR '']'', BSL]"

definition escape_meta :: "string \<Rightarrow> string" where
  "escape_meta s = concat (map (\<lambda>c. if c \<in> set escaped_chars then [BSL, c] else [c]) s)"

definition glob_to_regex :: "string \<Rightarrow> string" where
  "glob_to_regex p =
     (let escaped = replace_all ''*'' ''{{STAR}}''
                      (replace_all ''**'' ''{{GLOBSTAR}}'' (escape_meta p));
          reStr = replace_all ''{{STAR}}'' ''[^/]*''
                    (replace_all ''{{GLOBSTAR}}'' ''.*'' escaped)
      in ''^'' @ reStr @ ''$'')"

definition matchesGlob :: "string \<Rightarrow> string \<Rightarrow> error + bool" where
  "matchesGlob relPath pattern =
     (let p = trim pattern in
      if p = [] then Inr False
      else if \<not> includes_str p ''*'' then
        Inr (relPath = p \<or> suffix (''/'' @ p) relPath \<or> basename relPath = p)
      else
        (case parse_regex (glob_to_regex p) of
           Inl e \<Rightarrow> Inl e
         | Inr re \<Rightarrow> Inr (regexp_test re relPath)))"

text \<open>\<^verbatim>\<open>patterns.some((p) => matchesGlob(relPath, p))\<close>: the patterns are tried in order
  until one matches; an exception of \<^verbatim>\<open>matchesGlob\<close> ends the run.\<close>

fun some_matches :: "string \<Rightarrow> string list \<Rightarrow> error + bool" where
  "some_matches relPath [] = Inr False"
| "some_matches relPath (p # ps) =
     (case matchesGlob relPath p of
        Inl e \<Rightarrow> Inl e
      | Inr True \<Rightarrow> Inr True
      | Inr False \<Rightarrow> some_matches relPath ps)"

definition isExcluded :: "string \<Rightarrow> string list \<Rightarrow> error + bool" where
  "isExcluded relPath patterns =
     (if length patterns = 0 then Inr False else some_matches relPath patterns)"

definition isIncluded :: "string \<Rightarrow> string list \<Rightarrow> error + bool" where
  "isIncluded relPath patterns =
     (if length patterns = 0 then Inr True else some_matches relPath patterns)"

section \<open>Default exclusion\<close>

definition DEFAULT_EXCLUDE_SEGMENTS :: "string list" where
  "DEFAULT_EXCLUDE_SEGMENTS =
     [''.git'', ''node_modules'', ''temp'', ''tmp'', ''.tmp'', ''.temp'', ''vendor'',
      ''.venv'', ''.turbo'', ''dist'', ''__pycache__'']"

text \<open>\<^verbatim>\<open>s.split(re)\<close> for a regular expression \<open>re\<close> that matches exactly the single
  characters satisfying \<open>P\<close>, such as \<^verbatim>\<open>/\n/\<close> and \<^verbatim>\<open>/[/\\]/\<close>; the same as
  splitting at a one-character string.\<close>

fun split_on :: "(char \<Rightarrow> bool) \<Rightarrow> string \<Rightarrow> string list" where
  "split_on P [] = [[]]"
| "split_on P (c # cs) =
     (if P c then [] # split_on P cs
      else (case split_on P cs of [] \<Rightarrow> [[c]] | l # ls \<Rightarrow> (c # l) # ls))"

definition split_lines :: "string \<Rightarrow> string list" where
  "split_lines s = split_on (\<lambda>c. c = NL) s"

definition isDefaultExcluded :: "string \<Rightarrow> bool" where
  "isDefaultExcluded relPath =
     (let segments = filter (\<lambda>seg. seg \<noteq> []) (split_on (\<lambda>c. c = SLASH \<or> c = BSL) relPath)
      in list_ex (\<lambda>seg. seg \<in> set DEFAULT_EXCLUDE_SEGMENTS) segments)"

section \<open>Filter pipeline\<close>

text \<open>\<^verbatim>\<open>xs.filter(f)\<close> for a callback that may throw: the elements are tested in order and
  the first exception ends the run.\<close>

fun filter_throwing :: "(string \<Rightarrow> error + bool) \<Rightarrow> string list \<Rightarrow> error + string list" where
  "filter_throwing f [] = Inr []"
| "filter_throwing f (x # xs) =
     (case f x of
        Inl e \<Rightarrow> Inl e
      | Inr keep \<Rightarrow>
          (case filter_throwing f xs of
             Inl e \<Rightarrow> Inl e
           | Inr ys \<Rightarrow> Inr (if keep then x # ys else ys)))"

text \<open>The three pattern stages of \<^verbatim>\<open>main\<close>: default excludes, then include, then
  except.\<close>

definition apply_filters :: "string list \<Rightarrow> string list \<Rightarrow> string list \<Rightarrow> error + string list" where
  "apply_filters filePaths includeList exceptList =
     (let kept = filter (\<lambda>rel. \<not> isDefaultExcluded rel) filePaths in
      case filter_throwing (\<lambda>rel. isIncluded rel includeList) kept of
        Inl e \<Rightarrow> Inl e
      | Inr included \<Rightarrow>
          filter_throwing
            (\<lambda>rel. case isExcluded rel exceptList of Inl e \<Rightarrow> Inl e | Inr b \<Rightarrow> Inr (\<not> b))
            included)"

section \<open>Change-set provider\<close>

text \<open>The status code is \<^verbatim>\<open>line.slice(0, 2)\<close>; the line is dropped when
  \<^verbatim>\<open>status[0] === "D" || status[1] === "D"\<close>.\<close>

definition status_deleted :: "string \<Rightarrow> bool" where
  "status_deleted line =
     (let status = take 2 line in take 1 status = ''D'' \<or> take 1 (drop 1 status) = ''D'')"

text \<open>The path pushed for a line that is kept.\<close>

definition line_path :: "string \<Rightarrow> string" where
  "line_path line =
     (let filePath = trim (drop 3 line) in
      if includes_str filePath '' -> '' then trim (last (split '' -> '' filePath))
      else filePath)"

fun git_loop :: "string list \<Rightarrow> string list \<Rightarrow> string list" where
  "git_loop [] paths = paths"
| "git_loop (line # rest) paths =
     (if trim line = [] then git_loop rest paths
      else if status_deleted line then git_loop rest paths
      else git_loop rest (paths @ [line_path line]))"

text \<open>The argument is the output of \<^verbatim>\<open>git status --porcelain\<close>, or \<open>None\<close> when
  \<^verbatim>\<open>execSync\<close> throws.\<close>

definition getGitChangedFiles :: "string option \<Rightarrow> error + string list" where
  "getGitChangedFiles status_output =
     (case status_output of
        None \<Rightarrow> Inl CommandFailed
      | Some out \<Rightarrow> Inr (git_loop (split_lines out) []))"

section \<open>Path collector\<close>

text \<open>
  The file system as the collector sees it. A directory is the list of its entries in
  \<^verbatim>\<open>readdirSync\<close> order; an entry that is neither a directory nor a regular file is
  \<open>OtherNode\<close>. A path argument resolves to a \<open>target\<close>, which carries
  \<^verbatim>\<open>path.relative(cwd, resolved)\<close>. \<^verbatim>\<open>path.join\<close> is a parameter.
\<close>

datatype node = FileNode | DirNode "(string \<times> node) list" | OtherNode

datatype target = Missing | IsFile string | IsDir string "(string \<times> node) list" | IsOther

fun listFilesRecursive :: "(string \<Rightarrow> string \<Rightarrow> string) \<Rightarrow> (string \<times> node) list \<Rightarrow> string \<Rightarrow> string list" where
  "listFilesRecursive pjoin [] base = []"
| "listFilesRecursive pjoin ((name, n) # entries) base =
     (let rel = (if base \<noteq> [] then pjoin base name else name) in
      (case n of
         DirNode sub \<Rightarrow> listFilesRecursive pjoin sub rel
       | FileNode \<Rightarrow> [rel]
       | OtherNode \<Rightarrow> [])
      @ listFilesRecursive pjoin entries base)"

record collector =
  seen :: "string set"
  collected :: "string list"
  warnings :: "string list"

definition add_path :: "string \<Rightarrow> collector \<Rightarrow> collector" where
  "add_path rel st =
     (if rel \<notin> seen st then st\<lparr>seen := insert rel (seen st), collected := collected st @ [rel]\<rparr>
      else st)"

fun add_dir_files :: "(string \<Rightarrow> string \<Rightarrow> string) \<Rightarrow> string \<Rightarrow> string list \<Rightarrow> collector \<Rightarrow> collector" where
  "add_dir_files pjoin dirRel [] st = st"
| "add_dir_files pjoin dirRel (f # files) st =
     add_dir_files pjoin dirRel files
       (add_path (if dirRel \<noteq> [] then pjoin dirRel f else f) st)"

fun collect_loop :: "(string \<Rightarrow> string \<Rightarrow> string) \<Rightarrow> (string \<Rightarrow> target) \<Rightarrow> string list \<Rightarrow> collector \<Rightarrow> collector" where
  "collect_loop pjoin resolve [] st = st"
| "collect_loop pjoin resolve (arg # args) st =
     collect_loop pjoin resolve args
       (case resolve arg of
          Missing \<Rightarrow> st\<lparr>warnings := warnings st @ [''Warning: skipping missing path: '' @ arg]\<rparr>
        | IsFile rel \<Rightarrow> add_path rel st
        | IsDir dirRel entries \<Rightarrow>
            add_dir_files pjoin dirRel (listFilesRecursive pjoin entries []) st
        | IsOther \<Rightarrow>
            st\<lparr>warnings := warnings st @ [''Warning: skipping non-file non-dir: '' @ arg]\<rparr>)"

text \<open>The result and the warnings written to the error stream.\<close>

definition collectPaths :: "(string \<Rightarrow> string \<Rightarrow> string) \<Rightarrow> (string \<Rightarrow> target) \<Rightarrow> string list \<Rightarrow> string list \<times> string list" where
  "collectPaths pjoin resolve pathArgs =
     (let st = collect_loop pjoin resolve pathArgs \<lparr>seen = {}, collected = [], warnings = []\<rparr>
      in (sort (collected st), warnings st))"

section \<open>Document assembler\<close>

definition EXT_TO_LANG :: "(string \<times> string) list" where
  "EXT_TO_LANG =
     [(''.ts'', ''typescript''), (''.tsx'', ''tsx''), (''.js'', ''javascript''),
      (''.jsx'', ''jsx''), (''.mjs'', ''javascript''), (''.cjs'', ''javascript''),
      (''.md'', ''markdown''), (''.mdx'', ''mdx''), (''.json'', ''json''), (''.css'', ''css''),
      (''.scss'', ''scss''), (''.html'', ''html''), (''.sql'', ''sql''), (''.py'', ''python''),
      (''.sh'', ''shell''), (''.yaml'', ''yaml''), (''.yml'', ''yaml'')]"

definition FENCE :: string where
  "FENCE = [CHR 0x60, CHR 0x60, CHR 0x60]"

text \<open>\<^verbatim>\<open>path.extname\<close> is a parameter. It returns the empty string or a string that starts
  with a dot, so \<^verbatim>\<open>EXT_TO_LANG[ext] ?? ""\<close> is a lookup in the table above.\<close>

definition opening_of :: "(string \<Rightarrow> string) \<Rightarrow> string \<Rightarrow> string" where
  "opening_of extname relPath =
     (let ext = extname relPath;
          lang = (case map_of EXT_TO_LANG ext of None \<Rightarrow> [] | Some l \<Rightarrow> l)
      in if lang \<noteq> [] then lang @ '' '' @ relPath else relPath)"

definition render_block :: "(string \<Rightarrow> string) \<Rightarrow> string \<Rightarrow> string \<Rightarrow> string" where
  "render_block extname relPath content =
     FENCE @ opening_of extname relPath @ [NL] @ content @ [NL] @ FENCE @ [NL]"

definition tocHeader :: string where
  "tocHeader = ''# File Index'' @ [NL, NL] @ ''| Path | Start | End |'' @ [NL]
     @ ''|------|-------|-----|''"

record index_row =
  relPath :: string
  startLine :: nat
  endLine :: nat

text \<open>The loop over \<^verbatim>\<open>blocks\<close>; the first argument pairs \<^verbatim>\<open>filePaths[i]\<close> with
  \<^verbatim>\<open>blocks[i]\<close>, the second is \<^verbatim>\<open>currentLine\<close>.\<close>

fun build_entries :: "(string \<times> string) list \<Rightarrow> nat \<Rightarrow> index_row list" where
  "build_entries [] currentLine = []"
| "build_entries ((p, block) # rest) currentLine =
     (let blockLines = length (split_lines block) in
      \<lparr>relPath = p, startLine = currentLine, endLine = currentLine + blockLines - 1\<rparr>
      # build_entries rest (currentLine + blockLines))"

text \<open>A number in a template literal: its decimal digits.\<close>

definition digit_char :: "nat \<Rightarrow> char" where
  "digit_char d = ''0123456789'' ! d"

fun string_of_nat :: "nat \<Rightarrow> string" where
  "string_of_nat n =
     (if n < 10 then [digit_char n]
      else string_of_nat (n div 10) @ [digit_char (n mod 10)])"

declare string_of_nat.simps [simp del]

definition toc_row :: "index_row \<Rightarrow> string" where
  "toc_row e = ''| '' @ relPath e @ '' | '' @ string_of_nat (startLine e) @ '' | ''
     @ string_of_nat (endLine e) @ '' |''"

text \<open>The part of \<^verbatim>\<open>main\<close> from the blocks to the output text. \<open>files\<close> pairs each
  selected path with the content read from it.\<close>

definition assemble :: "(string \<Rightarrow> string) \<Rightarrow> (string \<times> string) list \<Rightarrow> string \<times> index_row list" where
  "assemble extname files =
     (let blocks = map (\<lambda>(p, content). render_block extname p content) files;
          tocLineCount = length (split_lines tocHeader) + length blocks + 1;
          entries = build_entries (zip (map fst files) blocks) (tocLineCount + 1);
          tocRows = join [NL] (map toc_row entries);
          toc = tocHeader @ [NL] @ tocRows;
          body = join [NL] blocks;
          output = toc @ [NL, NL] @ body
      in (output, entries))"

text \<open>The lines \<open>startLine\<close> to \<open>endLine\<close> (1-based, inclusive) of a text.\<close>

definition lines_between :: "nat \<Rightarrow> nat \<Rightarrow> string \<Rightarrow> string list" where
  "lines_between s e txt = take (e + 1 - s) (drop (s - 1) (split_lines txt))"

section \<open>The run\<close>

record parsed_args =
  outDir :: string
  outName :: "string option"
  exceptList :: "string list"
  includeList :: "string list"
  useGit :: bool
  pathArgs :: "string list"

text \<open>What a run reads from outside: the output of the status command, the file system,
  and Node's \<^verbatim>\<open>path\<close> functions.\<close>

record world =
  git_status :: "string option"
  resolve_arg :: "string \<Rightarrow> target"
  is_file :: "string \<Rightarrow> bool"
  read_file :: "string \<Rightarrow> string option"
  path_extname :: "string \<Rightarrow> string"
  path_join :: "string \<Rightarrow> string \<Rightarrow> string"
  path_relative :: "string \<Rightarrow> string"

datatype outcome = Exit nat | Uncaught error

record run =
  outcome :: outcome
  stdout :: "string list"
  stderr :: "string list"
  made_dirs :: "string list"
  written :: "(string \<times> string) list"

definition usage :: string where
  "usage = ''Usage: node merge-to-md.js [options] <path1> [path2] ...'' @ [NL]
     @ ''  Use --git for git changed files, or provide file/folder paths.''"

text \<open>The candidate paths with the warnings printed so far, or the run that ends there.\<close>

definition candidate_paths :: "world \<Rightarrow> parsed_args \<Rightarrow> run + string list \<times> string list" where
  "candidate_paths w a =
     (if useGit a then
        (case getGitChangedFiles (git_status w) of
           Inl e \<Rightarrow> Inl \<lparr>outcome = Uncaught e, stdout = [], stderr = [], made_dirs = [], written = []\<rparr>
         | Inr ps \<Rightarrow> Inr (ps, []))
      else if length (pathArgs a) = 0 then
        Inl \<lparr>outcome = Exit 1, stdout = [], stderr = [usage], made_dirs = [], written = []\<rparr>
      else Inr (collectPaths (path_join w) (resolve_arg w) (pathArgs a)))"

fun read_all :: "(string \<Rightarrow> string option) \<Rightarrow> string list \<Rightarrow> error + (string \<times> string) list" where
  "read_all rd [] = Inr []"
| "read_all rd (p # ps) =
     (case rd p of
        None \<Rightarrow> Inl ReadFailed
      | Some content \<Rightarrow>
          (case read_all rd ps of Inl e \<Rightarrow> Inl e | Inr fs \<Rightarrow> Inr ((p, content) # fs)))"

text \<open>\<^verbatim>\<open>first.replace(/\//g, "-").replace(/^-+|-+$/g, "") || "merged"\<close>.\<close>

definition name_of_path :: "string \<Rightarrow> string" where
  "name_of_path first =
     (let dashed = map (\<lambda>c. if c = SLASH then CHR ''-'' else c) first;
          stripped = rev (dropWhile (\<lambda>c. c = CHR ''-'') (rev (dropWhile (\<lambda>c. c = CHR ''-'') dashed)))
      in if stripped = [] then ''merged'' else stripped)"

definition resolved_name :: "parsed_args \<Rightarrow> string" where
  "resolved_name a =
     (case outName a of
        Some n \<Rightarrow> n
      | None \<Rightarrow>
          if useGit a then ''git-changed''
          else (case pathArgs a of [first] \<Rightarrow> name_of_path first | _ \<Rightarrow> ''merged''))"

text \<open>\<^verbatim>\<open>main\<close>, after \<^verbatim>\<open>parseArgs\<close>. \<open>outName\<close> is \<open>None\<close> or a non-empty string, as
  \<^verbatim>\<open>parseArgs\<close> returns it.\<close>

definition main :: "world \<Rightarrow> parsed_args \<Rightarrow> run" where
  "main w a =
     (case candidate_paths w a of
        Inl r \<Rightarrow> r
      | Inr (collected_paths, warned) \<Rightarrow>
          (case apply_filters collected_paths (includeList a) (exceptList a) of
             Inl e \<Rightarrow> \<lparr>outcome = Uncaught e, stdout = [], stderr = warned, made_dirs = [], written = []\<rparr>
           | Inr filtered \<Rightarrow>
               (let filePaths = filter (is_file w) filtered in
                if length filePaths = 0 then
                  \<lparr>outcome = Exit 0, stdout = [''No files to merge after filtering.''],
                   stderr = warned, made_dirs = [], written = []\<rparr>
                else
                  (case read_all (read_file w) filePaths of
                     Inl e \<Rightarrow> \<lparr>outcome = Uncaught e, stdout = [], stderr = warned, made_dirs = [], written = []\<rparr>
                   | Inr files \<Rightarrow>
                       (let output = fst (assemble (path_extname w) files);
                            outPath = path_join w (outDir a) (resolved_name a @ ''.md'')
                        in \<lparr>outcome = Exit 0,
                            stdout = [''Wrote '' @ string_of_nat (length filePaths) @ '' files to ''
                                      @ path_relative w outPath],
                            stderr = warned,
                            made_dirs = [outDir a],
                            written = [(outPath, output)]\<rparr>)))))"

section \<open>The glob language as the specification words it\<close>

text \<open>
  A second reading of a pattern, written from the specification and not from the code:
  each \<^verbatim>\<open>**\<close> stands for any sequence of characters, each remaining \<^verbatim>\<open>*\<close> for any
  sequence of characters other than \<^verbatim>\<open>/\<close>, every other character for itself, and the
  whole path has to be matched.
\<close>

datatype glob_token = AnySeq | AnyInSegment | Exactly char

fun glob_tokens :: "string \<Rightarrow> glob_token list" where
  "glob_tokens [] = []"
| "glob_tokens [c] = [if c = CHR ''*'' then AnyInSegment else Exactly c]"
| "glob_tokens (c # d # cs) =
     (if c = CHR ''*'' \<and> d = CHR ''*'' then AnySeq # glob_tokens cs
      else if c = CHR ''*'' then AnyInSegment # glob_tokens (d # cs)
      else Exactly c # glob_tokens (d # cs))"

fun glob_accepts :: "glob_token list \<Rightarrow> string \<Rightarrow> bool" where
  "glob_accepts [] s = (s = [])"
| "glob_accepts (Exactly c # ts) [] = False"
| "glob_accepts (Exactly c # ts) (d # ds) = (d = c \<and> glob_accepts ts ds)"
| "glob_accepts (AnySeq # ts) [] = glob_accepts ts []"
| "glob_accepts (AnySeq # ts) (d # ds) =
     (glob_accepts ts (d # ds) \<or> glob_accepts (AnySeq # ts) ds)"
| "glob_accepts (AnyInSegment # ts) [] = glob_accepts ts []"
| "glob_accepts (AnyInSegment # ts) (d # ds) =
     (glob_accepts ts (d # ds) \<or> (d \<noteq> SLASH \<and> glob_accepts (AnyInSegment # ts) ds))"

definition spec_glob_matches :: "string \<Rightarrow> string \<Rightarrow> bool" where
  "spec_glob_matches rel pattern = glob_accepts (glob_tokens pattern) rel"

section \<open>Auxiliary notions and example inputs\<close>

text \<open>The pieces of the regular expression, token by token: \<open>esc\<close> is what the escaping
  step makes of one character, \<open>render g s\<close> writes \<open>g\<close> for \<^verbatim>\<open>**\<close> and \<open>s\<close> for \<^verbatim>\<open>*\<close>,
  and \<open>term_of\<close> is the term a token stands for.\<close>

definition esc :: "char \<Rightarrow> string" where
  "esc c = (if c \<in> set escaped_chars then [BSL, c] else [c])"

fun piece :: "string \<Rightarrow> string \<Rightarrow> glob_token \<Rightarrow> string" where
  "piece g s AnySeq = g"
| "piece g s AnyInSegment = s"
| "piece g s (Exactly c) = esc c"

definition render :: "string \<Rightarrow> string \<Rightarrow> string \<Rightarrow> string" where
  "render g s p = concat (map (piece g s) (glob_tokens p))"

fun term_of :: "glob_token \<Rightarrow> regex_term" where
  "term_of AnySeq = Atom Dot Many"
| "term_of AnyInSegment = Atom NotSlash Many"
| "term_of (Exactly c) = Atom (Lit c) Once"

definition regex_of :: "glob_token list \<Rightarrow> string" where
  "regex_of ts = concat (map (piece ''.*'' ''[^/]*'') ts)"

definition plain_token :: "glob_token \<Rightarrow> bool" where
  "plain_token t = (t \<noteq> Exactly (CHR ''*'') \<and> t \<noteq> Exactly (CHR ''?''))"

text \<open>The paths one argument of the collector contributes, before deduplication.\<close>

definition arg_files :: "(string \<Rightarrow> string \<Rightarrow> string) \<Rightarrow> target \<Rightarrow> string list" where
  "arg_files pjoin t =
     (case t of
        IsFile rel \<Rightarrow> [rel]
      | IsDir dirRel entries \<Rightarrow>
          map (\<lambda>f. if dirRel \<noteq> [] then pjoin dirRel f else f) (listFilesRecursive pjoin entries [])
      | _ \<Rightarrow> [])"

text \<open>The invariant of the collector's loop: \<^verbatim>\<open>seen\<close> holds exactly the collected paths,
  each of them once.\<close>

definition collector_ok :: "collector \<Rightarrow> bool" where
  "collector_ok st = (seen st = set (collected st) \<and> distinct (collected st))"

text \<open>\<^verbatim>\<open>path.join\<close> on two normalised relative POSIX paths.\<close>

definition posix_join :: "string \<Rightarrow> string \<Rightarrow> string" where
  "posix_join a b = a @ ''/'' @ b"

text \<open>A working directory with a folder \<^verbatim>\<open>src\<close>, used as a concrete input.\<close>

definition demo_tree :: "string \<Rightarrow> target" where
  "demo_tree arg =
     (if arg = ''src'' then
        IsDir ''src'' [(''b.ts'', FileNode), (''a.ts'', FileNode),
                       (''sub'', DirNode [(''z.ts'', FileNode), (''sock'', OtherNode)])]
      else if arg = ''src/a.ts'' then IsFile ''src/a.ts''
      else Missing)"

text \<open>A working directory whose folder \<^verbatim>\<open>pkg\<close> holds only a \<^verbatim>\<open>node_modules\<close> folder.\<close>

definition demo_world :: world where
  "demo_world =
     \<lparr>git_status = None,
      resolve_arg = (\<lambda>arg. if arg = ''pkg'' then
                        IsDir ''pkg'' [(''node_modules'', DirNode [(''dep.js'', FileNode)])]
                      else Missing),
      is_file = (\<lambda>p. p = ''pkg/node_modules/dep.js''),
      read_file = (\<lambda>p. if p = ''pkg/node_modules/dep.js'' then Some ''x'' else None),
      path_extname = (\<lambda>p. ''.js''),
      path_join = posix_join,
      path_relative = (\<lambda>p. p)\<rparr>"

definition demo_args :: parsed_args where
  "demo_args = \<lparr>outDir = ''temp/llm-context'', outName = None, exceptList = [],
     includeList = [], useGit = False, pathArgs = [''pkg'', ''gone'']\<rparr>"

text \<open>The blocks of the selected files, in order.\<close>

definition blocks_of :: "(string \<Rightarrow> string) \<Rightarrow> (string \<times> string) list \<Rightarrow> string list" where
  "blocks_of ext files = map (\<lambda>(p, content). render_block ext p content) files"

text \<open>Two files, the first with a known extension and a content that ends with a line
  feed.\<close>

definition demo_ext :: "string \<Rightarrow> string" where
  "demo_ext p = (if p = ''a.ts'' then ''.ts'' else [])"

definition demo_files :: "(string \<times> string) list" where
  "demo_files = [(''a.ts'', ''x'' @ [NL]), (''b'', ''y'')]"

text \<open>One file whose name holds a line feed, as POSIX file names may.\<close>

definition newline_files :: "(string \<times> string) list" where
  "newline_files = [([CHR ''a'', NL, CHR ''b''], ''x'')]"

section \<open>Properties of the glob matcher\<close>

lemmas glob_eval = matchesGlob_def trim_def is_ws_def glob_to_regex_def escape_meta_def
  escaped_chars_def BSL_def regexp_test_def SLASH_def syntax_chars_def NL_def CR_def
  basename_def

lemma includes_star: "includes_str s ''*'' \<longleftrightarrow> CHR ''*'' \<in> set s"
  by (induction s) auto

lemma in_dropWhile: "x \<in> set xs \<Longrightarrow> \<not> P x \<Longrightarrow> x \<in> set (dropWhile P xs)"
  by (induction xs) auto

lemma set_trim: "set (trim s) \<subseteq> set s"
  by (auto simp: trim_def dest!: set_dropWhileD)

lemma in_trim: "c \<in> set s \<Longrightarrow> \<not> is_ws c \<Longrightarrow> c \<in> set (trim s)"
  unfolding trim_def by (simp add: in_dropWhile)

lemma star_trim: "includes_str (trim s) ''*'' = includes_str s ''*''"
  using set_trim [of s] in_trim [of "CHR ''*''" s] by (auto simp: includes_star is_ws_def)

lemma trim_ws_only: "\<forall>c \<in> set s. is_ws c \<Longrightarrow> trim s = []"
proof -
  assume "\<forall>c \<in> set s. is_ws c"
  then have "dropWhile is_ws s = []" by (simp add: dropWhile_eq_Nil_conv)
  then show ?thesis by (simp add: trim_def del: dropWhile_eq_Nil_conv)
qed

subsection \<open>From the pattern to the regular expression\<close>

lemma escape_meta_Cons: "escape_meta (c # cs) = esc c @ escape_meta cs"
  by (simp add: escape_meta_def esc_def)

lemma escape_meta_Nil: "escape_meta [] = []"
  by (simp add: escape_meta_def)

lemma esc_star: "esc (CHR ''*'') = ''*''"
  by (simp add: esc_def escaped_chars_def BSL_def)

lemma esc_cases: "esc c = [c] \<and> c \<notin> set escaped_chars \<or> esc c = [BSL, c] \<and> c \<in> set escaped_chars"
  by (simp add: esc_def)

lemma render_Nil: "render g s [] = []"
  by (simp add: render_def)

lemma render_single:
  "render g s [c] = (if c = CHR ''*'' then s else esc c)"
  by (simp add: render_def)

lemma render_CC:
  "render g s (c # d # cs) =
     (if c = CHR ''*'' \<and> d = CHR ''*'' then g @ render g s cs
      else if c = CHR ''*'' then s @ render g s (d # cs)
      else esc c @ render g s (d # cs))"
  by (simp add: render_def)

lemma not_prefix_hd: "lit \<noteq> [] \<Longrightarrow> x \<noteq> hd lit \<Longrightarrow> \<not> prefix lit (x # s)"
  by (cases lit) auto

lemma replace_all_skip:
  "lit \<noteq> [] \<Longrightarrow> \<forall>x \<in> set u. x \<noteq> hd lit \<Longrightarrow>
   replace_all lit rep (u @ s) = u @ replace_all lit rep s"
  by (induction u) (simp_all add: not_prefix_hd)

lemma stage_B:
  "replace_all ''**'' ''{{GLOBSTAR}}'' (escape_meta p) = render ''{{GLOBSTAR}}'' ''*'' p"
proof (induction p rule: glob_tokens.induct)
  case 1
  show ?case by (simp add: escape_meta_Nil render_Nil)
next
  case (2 c)
  show ?case
    using esc_cases [of c]
    by (auto simp: escape_meta_Cons escape_meta_Nil render_single esc_star BSL_def)
next
  case (3 c d cs)
  show ?case
  proof (cases "c = CHR ''*''")
    case True
    note c = this
    show ?thesis
    proof (cases "d = CHR ''*''")
      case True
      with c 3 show ?thesis
        by (simp add: escape_meta_Cons render_CC esc_star)
    next
      case False
      then have np: "\<not> prefix ''*'' (esc d @ escape_meta cs)"
        using esc_cases [of d] by (auto simp: BSL_def)
      have "escape_meta (c # d # cs) = CHR ''*'' # escape_meta (d # cs)"
        using c by (simp add: escape_meta_Cons [of "CHR ''*''"] esc_star)
      moreover have "escape_meta (d # cs) = esc d @ escape_meta cs"
        by (rule escape_meta_Cons)
      ultimately have "replace_all ''**'' ''{{GLOBSTAR}}'' (escape_meta (c # d # cs))
          = CHR ''*'' # replace_all ''**'' ''{{GLOBSTAR}}'' (escape_meta (d # cs))"
        using np by simp
      with c False 3 show ?thesis by (simp add: render_CC)
    qed
  next
    case False
    then have "\<forall>x \<in> set (esc c). x \<noteq> hd ''**''"
      using esc_cases [of c] by (auto simp: BSL_def)
    from replace_all_skip [OF _ this, of "''{{GLOBSTAR}}''" "escape_meta (d # cs)"] False 3
    show ?thesis by (simp add: escape_meta_Cons [of c] render_CC)
  qed
qed


lemma replace_all_single:
  "replace_all [x] rep s = concat (map (\<lambda>c. if c = x then rep else [c]) s)"
  by (induction s) auto

lemma replace_all_single_append:
  "replace_all [x] rep (u @ v) = replace_all [x] rep u @ replace_all [x] rep v"
  by (simp add: replace_all_single)

lemma concat_map_id: "x \<notin> set u \<Longrightarrow> concat (map (\<lambda>c. if c = x then rep else [c]) u) = u"
  by (induction u) auto

lemma esc_no_star: "c \<noteq> CHR ''*'' \<Longrightarrow> CHR ''*'' \<notin> set (esc c)"
  using esc_cases [of c] by (auto simp: BSL_def)

lemma stage_C:
  "replace_all ''*'' ''{{STAR}}'' (render ''{{GLOBSTAR}}'' ''*'' p)
     = render ''{{GLOBSTAR}}'' ''{{STAR}}'' p"
proof (induction p rule: glob_tokens.induct)
  case 1
  show ?case by (simp add: render_Nil)
next
  case (2 c)
  show ?case using esc_no_star [of c]
    by (auto simp: render_single replace_all_single concat_map_id)
next
  case (3 c d cs)
  show ?case
  proof (cases "c = CHR ''*''")
    case True
    with 3 show ?thesis
      by (simp add: render_CC replace_all_single)
  next
    case False
    with 3 esc_no_star [of c] show ?thesis
      by (simp add: render_CC replace_all_single concat_map_id)
  qed
qed

lemma prefix_append_left: "prefix (a @ b) r \<Longrightarrow> prefix a r"
  by (auto simp: prefix_def)

lemma render_no_brace:
  "g = ''{{GLOBSTAR}}'' \<or> g = ''.*'' \<Longrightarrow> \<not> prefix [CHR ''{'', x] (render g ''{{STAR}}'' p)"
  if "x \<noteq> CHR ''{''"
proof -
  assume g: "g = ''{{GLOBSTAR}}'' \<or> g = ''.*''"
  have e: "\<not> prefix [CHR ''{'', x] (esc c @ r)" for c r
    using esc_cases [of c] by (auto simp: escaped_chars_def BSL_def)
  show ?thesis
  proof (cases p rule: glob_tokens.cases)
    case 1
    then show ?thesis by (simp add: render_Nil)
  next
    case (2 c)
    then show ?thesis using that e [of c "[]"] by (auto simp: render_single)
  next
    case (3 c d cs)
    then show ?thesis using that g e [of c] by (auto simp: render_CC)
  qed
qed

lemma stage_D:
  "replace_all ''{{GLOBSTAR}}'' ''.*'' (render ''{{GLOBSTAR}}'' ''{{STAR}}'' p)
     = render ''.*'' ''{{STAR}}'' p"
proof (induction p rule: glob_tokens.induct)
  case 1
  show ?case by (simp add: render_Nil)
next
  case (2 c)
  show ?case
    using esc_cases [of c]
    by (auto simp: render_single BSL_def escaped_chars_def)
next
  case (3 c d cs)
  let ?G = "''{{GLOBSTAR}}''"
  show ?case
  proof (cases "c = CHR ''*''")
    case True
    with 3 show ?thesis by (auto simp: render_CC)
  next
    case False
    let ?r = "render ?G ''{{STAR}}'' (d # cs)"
    have np: "\<not> prefix ?G (c # ?r)"
    proof (cases "c = CHR ''{''")
      case True
      have "\<not> prefix [CHR ''{'', CHR ''G''] ?r"
        by (rule render_no_brace) simp_all
      then have "\<not> prefix ''{GLOBSTAR}}'' ?r"
        using prefix_append_left [of "''{G''" "''LOBSTAR}}''" ?r] by auto
      with True show ?thesis by simp
    next
      case False
      then show ?thesis by simp
    qed
    have "replace_all ?G ''.*'' (esc c @ ?r) = esc c @ replace_all ?G ''.*'' ?r"
      using esc_cases [of c] np by (auto simp: BSL_def)
    with False 3 show ?thesis by (simp add: render_CC)
  qed
qed

lemma stage_E:
  "replace_all ''{{STAR}}'' ''[^/]*'' (render ''.*'' ''{{STAR}}'' p)
     = render ''.*'' ''[^/]*'' p"
proof (induction p rule: glob_tokens.induct)
  case 1
  show ?case by (simp add: render_Nil)
next
  case (2 c)
  show ?case
    using esc_cases [of c]
    by (auto simp: render_single BSL_def escaped_chars_def)
next
  case (3 c d cs)
  let ?S = "''{{STAR}}''"
  show ?case
  proof (cases "c = CHR ''*''")
    case True
    with 3 show ?thesis by (auto simp: render_CC)
  next
    case False
    let ?r = "render ''.*'' ?S (d # cs)"
    have np: "\<not> prefix ?S (c # ?r)"
    proof (cases "c = CHR ''{''")
      case True
      have "\<not> prefix [CHR ''{'', CHR ''S''] ?r"
        by (rule render_no_brace) simp_all
      then have "\<not> prefix ''{STAR}}'' ?r"
        using prefix_append_left [of "''{S''" "''TAR}}''" ?r] by auto
      with True show ?thesis by simp
    next
      case False
      then show ?thesis by simp
    qed
    have "replace_all ?S ''[^/]*'' (esc c @ ?r) = esc c @ replace_all ?S ''[^/]*'' ?r"
      using esc_cases [of c] np by (auto simp: BSL_def)
    with False 3 show ?thesis by (simp add: render_CC)
  qed
qed

lemma glob_to_regex_render:
  "glob_to_regex p = ''^'' @ render ''.*'' ''[^/]*'' p @ ''$''"
  by (simp only: glob_to_regex_def Let_def stage_B stage_C stage_D stage_E)

lemma glob_tokens_chars: "Exactly c \<in> set (glob_tokens p) \<Longrightarrow> c \<in> set p \<and> c \<noteq> CHR ''*''"
  by (induction p rule: glob_tokens.induct) (auto split: if_splits)

lemma glob_tokens_plain:
  "CHR ''?'' \<notin> set p \<Longrightarrow> t \<in> set (glob_tokens p) \<Longrightarrow> plain_token t"
  using glob_tokens_chars [of _ p] by (cases t) (auto simp: plain_token_def)

lemma regex_of_Nil: "regex_of [] = []"
  by (simp add: regex_of_def)

lemma regex_of_Cons: "regex_of (t # ts) = piece ''.*'' ''[^/]*'' t @ regex_of ts"
  by (simp add: regex_of_def)

lemma esc_head:
  "c \<noteq> CHR ''*'' \<Longrightarrow> c \<noteq> CHR ''?'' \<Longrightarrow>
   \<exists>x xs. esc c @ r = x # xs \<and> x \<noteq> CHR ''?'' \<and> x \<noteq> CHR ''*''"
  using esc_cases [of c] by (auto simp: BSL_def)

lemma regex_of_head:
  assumes "\<forall>t \<in> set ts. plain_token t"
  shows "\<exists>x xs. regex_of ts @ ''$'' = x # xs \<and> x \<noteq> CHR ''?'' \<and> x \<noteq> CHR ''*''"
proof (cases ts)
  case Nil
  then show ?thesis by (simp add: regex_of_Nil)
next
  case (Cons t ts')
  show ?thesis
  proof (cases t)
    case AnySeq
    with Cons show ?thesis by (simp add: regex_of_Cons)
  next
    case AnyInSegment
    with Cons show ?thesis by (simp add: regex_of_Cons)
  next
    case (Exactly c)
    with Cons assms have "c \<noteq> CHR ''*''" "c \<noteq> CHR ''?''" by (auto simp: plain_token_def)
    from esc_head [OF this, of "regex_of ts' @ ''$''"] Cons Exactly
    show ?thesis by (simp add: regex_of_Cons)
  qed
qed

lemma parse_esc:
  assumes "c \<noteq> CHR ''*''" "c \<noteq> CHR ''?''" "x \<noteq> CHR ''?''" "x \<noteq> CHR ''*''"
  shows "parse_regex (esc c @ x # xs) =
     (case parse_regex (x # xs) of Inl e \<Rightarrow> Inl e | Inr ts \<Rightarrow> Inr (Atom (Lit c) Once # ts))"
proof (cases "c \<in> set escaped_chars")
  case True
  then have "esc c = [BSL, c]" "c \<in> set syntax_chars"
    by (auto simp: esc_def escaped_chars_def syntax_chars_def)
  with assms show ?thesis by (simp add: BSL_def)
next
  case False
  with assms have "esc c = [c]" "c \<notin> set syntax_chars"
    by (auto simp: esc_def escaped_chars_def syntax_chars_def)
  with assms show ?thesis by (auto simp: syntax_chars_def BSL_def)
qed

lemma parse_tokens:
  "\<forall>t \<in> set ts. plain_token t \<Longrightarrow>
   parse_regex (regex_of ts @ ''$'') = Inr (map term_of ts @ [Eol])"
proof (induction ts)
  case Nil
  show ?case by (simp add: regex_of_Nil)
next
  case (Cons t ts)
  then have IH: "parse_regex (regex_of ts @ ''$'') = Inr (map term_of ts @ [Eol])" by simp
  from Cons.prems obtain x xs where
    r: "regex_of ts @ ''$'' = x # xs" and x: "x \<noteq> CHR ''?''" "x \<noteq> CHR ''*''"
    using regex_of_head [of ts] by auto
  show ?case
  proof (cases t)
    case AnySeq
    have "parse_regex (''.*'' @ x # xs) =
        (case parse_regex (x # xs) of Inl e \<Rightarrow> Inl e | Inr ts \<Rightarrow> Inr (Atom Dot Many # ts))"
      using x by (simp add: BSL_def)
    with IH r AnySeq show ?thesis by (simp add: regex_of_Cons)
  next
    case AnyInSegment
    have "parse_regex (''[^/]*'' @ x # xs) =
        (case parse_regex (x # xs) of Inl e \<Rightarrow> Inl e | Inr ts \<Rightarrow> Inr (Atom NotSlash Many # ts))"
      using x by (simp add: BSL_def SLASH_def)
    with IH r AnyInSegment show ?thesis by (simp add: regex_of_Cons)
  next
    case (Exactly c)
    with Cons.prems have "c \<noteq> CHR ''*''" "c \<noteq> CHR ''?''" by (auto simp: plain_token_def)
    from parse_esc [OF this x, of xs] IH r Exactly show ?thesis
      by (simp add: regex_of_Cons)
  qed
qed

lemma search_Bol_False: "search (Bol # ts) False s = False"
  by (induction s) auto

lemma regexp_test_anchored: "regexp_test (Bol # ts) s = match_here ts True s"
  by (cases s) (auto simp: regexp_test_def search_Bol_False)

lemma match_here_glob:
  "\<forall>c \<in> set s. c \<noteq> NL \<and> c \<noteq> CR \<Longrightarrow>
   match_here (map term_of ts @ [Eol]) b s = glob_accepts ts s"
  by (induction ts s arbitrary: b rule: glob_accepts.induct) auto

text \<open>
  What the matcher does for a glob: when the pattern holds a \<^verbatim>\<open>*\<close> and no \<^verbatim>\<open>?\<close>, and
  the path holds no line feed and no carriage return, the code never throws and accepts
  exactly the paths that the specification's reading of the trimmed pattern accepts.
\<close>

theorem matchesGlob_refines_spec:
  assumes "includes_str pattern ''*''" "CHR ''?'' \<notin> set pattern"
    and "NL \<notin> set rel" "CR \<notin> set rel"
  shows "matchesGlob rel pattern = Inr (spec_glob_matches rel (trim pattern))"
proof -
  let ?p = "trim pattern"
  have s: "includes_str ?p ''*''" using assms(1) by (simp add: star_trim)
  then have ne: "?p \<noteq> []" by (auto simp: includes_star)
  have q: "CHR ''?'' \<notin> set ?p" using assms(2) set_trim [of pattern] by auto
  have "glob_to_regex ?p = CHR ''^'' # (regex_of (glob_tokens ?p) @ ''$'')"
    by (simp add: glob_to_regex_render render_def regex_of_def)
  moreover have "parse_regex (regex_of (glob_tokens ?p) @ ''$'')
      = Inr (map term_of (glob_tokens ?p) @ [Eol])"
    using glob_tokens_plain [OF q] by (intro parse_tokens) blast
  ultimately have "parse_regex (glob_to_regex ?p) = Inr (Bol # map term_of (glob_tokens ?p) @ [Eol])"
    by simp
  moreover have "match_here (map term_of (glob_tokens ?p) @ [Eol]) True rel
      = glob_accepts (glob_tokens ?p) rel"
    using assms(3,4) by (intro match_here_glob) auto
  ultimately show ?thesis
    using s ne by (simp add: matchesGlob_def Let_def regexp_test_anchored spec_glob_matches_def)
qed

lemma matchesGlob_refines_spec_example:
  "matchesGlob ''a/b/c.ts'' '' **/*.ts'' = Inr True \<and>
   matchesGlob ''a/b/c.tsx'' ''**/*.ts'' = Inr False \<and>
   matchesGlob ''src/{x}.ts'' ''src/{x}.*'' = Inr True"
  using matchesGlob_refines_spec [of "'' **/*.ts''" "''a/b/c.ts''"]
    matchesGlob_refines_spec [of "''**/*.ts''" "''a/b/c.tsx''"]
    matchesGlob_refines_spec [of "''src/{x}.*''" "''src/{x}.ts''"]
  by (simp add: spec_glob_matches_def trim_def is_ws_def NL_def CR_def SLASH_def)

subsection \<open>The claims about the matcher\<close>

lemma star_ts_returns:
  "matchesGlob rel ''*.ts'' =
     Inr (regexp_test [Bol, Atom NotSlash Many, Atom (Lit (CHR ''.'')) Once,
                       Atom (Lit (CHR ''t'')) Once, Atom (Lit (CHR ''s'')) Once, Eol] rel)"
  by (simp add: matchesGlob_def trim_def is_ws_def glob_to_regex_def escape_meta_def
      escaped_chars_def BSL_def SLASH_def syntax_chars_def)

lemma lit_once:
  "match_here (Atom (Lit d) Once # ts) b s = (\<exists>cs. s = d # cs \<and> match_here ts False cs)"
  by (cases s) auto

lemma dot_ts_exact:
  "match_here [Atom (Lit (CHR ''.'')) Once, Atom (Lit (CHR ''t'')) Once,
               Atom (Lit (CHR ''s'')) Once, Eol] b s = (s = ''.ts'')"
  by (auto simp: lit_once)

lemma star_ts_slash:
  "SLASH \<in> set s \<Longrightarrow>
   \<not> match_here [Atom NotSlash Many, Atom (Lit (CHR ''.'')) Once, Atom (Lit (CHR ''t'')) Once,
                  Atom (Lit (CHR ''s'')) Once, Eol] b s"
proof (induction s arbitrary: b)
  case Nil
  then show ?case by simp
next
  case (Cons c cs)
  let ?T = "[Atom (Lit (CHR ''.'')) Once, Atom (Lit (CHR ''t'')) Once,
             Atom (Lit (CHR ''s'')) Once, Eol]"
  have "c # cs \<noteq> ''.ts''" using Cons.prems by (auto simp: SLASH_def)
  then have t: "\<not> match_here ?T b (c # cs)" by (simp only: dot_ts_exact) simp
  have f: "\<not> (atom_ok NotSlash c \<and> match_here (Atom NotSlash Many # ?T) False cs)"
  proof (cases "c = SLASH")
    case True
    then show ?thesis by simp
  next
    case False
    with Cons.prems have "SLASH \<in> set cs" by simp
    from Cons.IH [OF this] show ?thesis by simp
  qed
  from t f show ?case by (simp only: match_here.simps) simp
qed

text \<open>The pattern \<^verbatim>\<open>*.ts\<close> on its own: the code rejects every path that holds a \<^verbatim>\<open>/\<close>,
  so on the files of a folder argument, whose paths all carry the folder as a prefix, the
  pattern selects nothing.\<close>

lemma matchesGlob_star_stays_in_segment:
  "(SLASH \<in> set rel \<longrightarrow> matchesGlob rel ''*.ts'' = Inr False) \<and>
   matchesGlob ''b.ts'' ''*.ts'' = Inr True \<and>
   matchesGlob ''a/b.ts'' ''**/*.ts'' = Inr True"
proof (intro conjI impI)
  assume "SLASH \<in> set rel"
  then show "matchesGlob rel ''*.ts'' = Inr False"
    by (simp add: star_ts_returns regexp_test_anchored star_ts_slash)
qed (simp_all add: glob_eval)

text \<open>
  C3. The claim is that \<^verbatim>\<open>matches("a/b.ts", "*.ts")\<close> returns true, as the usage text of
  the program has it: \<^verbatim>\<open>*.test.ts\<close> is documented to exclude any file ending in
  \<^verbatim>\<open>.test.ts\<close> below a folder argument, and a pattern without \<^verbatim>\<open>*\<close> does match by
  base name. The code turns \<^verbatim>\<open>*.ts\<close> into the anchored expression \<^verbatim>\<open>^[^/]*\.ts$\<close>
  and returns false for \<^verbatim>\<open>a/b.ts\<close>, and false for the documented use.
\<close>

theorem matchesGlob_star_ts_nested:
  "glob_to_regex ''*.ts'' = ''^[^/]*'' @ [BSL] @ ''.ts$'' \<and>
   matchesGlob ''a/b.ts'' ''*.ts'' = Inr False \<and>
   matchesGlob ''apps/web/src/x.test.ts'' ''*.test.ts'' = Inr False \<and>
   matchesGlob ''a/b.ts'' ''b.ts'' = Inr True"
  by (simp add: glob_eval suffix_to_prefix)

text \<open>
  C4. The claim is that every character of a glob pattern other than \<^verbatim>\<open>*\<close> is matched
  literally. The escaping step leaves \<^verbatim>\<open>?\<close> alone, so in the regular expression it
  is a quantifier: for the pattern \<^verbatim>\<open>a?*.ts\<close> the code accepts \<^verbatim>\<open>x.ts\<close>, which the
  specification's reading of the pattern rejects.
\<close>

theorem matchesGlob_question_mark:
  "includes_str ''a?*.ts'' ''*'' \<and>
   matchesGlob ''x.ts'' ''a?*.ts'' = Inr True \<and>
   \<not> spec_glob_matches ''x.ts'' ''a?*.ts''"
  by (simp add: glob_eval spec_glob_matches_def)

text \<open>Two more inputs where the code leaves the specification's reading of a glob:
  a leading \<^verbatim>\<open>?\<close> makes \<^verbatim>\<open>new RegExp\<close> throw, and \<^verbatim>\<open>**\<close>, compiled to \<^verbatim>\<open>.*\<close>,
  does not cross a line feed in the path.\<close>

lemma matchesGlob_leading_question_mark:
  "matchesGlob ''b'' ''?*'' = Inl SyntaxError"
  by (simp add: glob_eval)

lemma matchesGlob_globstar_newline:
  "matchesGlob [CHR ''a'', NL, CHR ''b''] ''**'' = Inr False \<and>
   spec_glob_matches [CHR ''a'', NL, CHR ''b''] ''**''"
  by (simp add: glob_eval spec_glob_matches_def)

text \<open>
  C5, as amended. A pattern made of white space only (the empty pattern included) never
  matches. A pattern without \<^verbatim>\<open>*\<close> that is not white space only matches exactly when
  the path equals the trimmed pattern, or ends with \<^verbatim>\<open>/\<close> followed by the trimmed
  pattern, or has the trimmed pattern as its base name.
\<close>

theorem matchesGlob_plain_pattern:
  "((\<forall>c \<in> set pattern. is_ws c) \<longrightarrow> matchesGlob rel pattern = Inr False) \<and>
   (\<not> includes_str pattern ''*'' \<and> trim pattern \<noteq> [] \<longrightarrow>
      matchesGlob rel pattern =
        Inr (rel = trim pattern \<or> suffix (''/'' @ trim pattern) rel
             \<or> basename rel = trim pattern))"
  by (simp add: matchesGlob_def trim_ws_only star_trim Let_def)

theorem matchesGlob_plain_pattern_witness:
  "matchesGlob ''a/b/foo.ts'' ''  '' = Inr False \<and>
   matchesGlob ''a/b/foo.ts'' ''foo.ts '' = Inr True \<and>
   matchesGlob ''a/foo.tsx'' ''foo.ts'' = Inr False"
  using matchesGlob_plain_pattern [of "''  ''" "''a/b/foo.ts''"]
    matchesGlob_plain_pattern [of "''foo.ts ''" "''a/b/foo.ts''"]
    matchesGlob_plain_pattern [of "''foo.ts''" "''a/foo.tsx''"]
  by (simp add: trim_def is_ws_def basename_def SLASH_def suffix_to_prefix)

text \<open>The claim C5 as written compares the path with the pattern itself. The code trims the
  pattern first, so a pattern with a leading blank matches a path that none of the three
  conditions of the claim admits.\<close>

theorem matchesGlob_untrimmed_pattern:
  "\<not> includes_str '' a.ts'' ''*'' \<and>
   matchesGlob ''a.ts'' '' a.ts'' = Inr True \<and>
   \<not> (''a.ts'' = '' a.ts'' \<or> suffix (''/'' @ '' a.ts'') ''a.ts''
      \<or> basename ''a.ts'' = '' a.ts'')"
  by (simp add: glob_eval suffix_to_prefix)

section \<open>The filter pipeline\<close>

lemma filter_throwing_Inr:
  "filter_throwing f xs = Inr ys \<Longrightarrow> ys = filter (\<lambda>x. f x = Inr True) xs"
  by (induction xs arbitrary: ys) (auto split: sum.splits if_splits)

lemma filter_throwing_total:
  "(\<And>x. x \<in> set xs \<Longrightarrow> \<exists>b. f x = Inr b) \<Longrightarrow> \<exists>ys. filter_throwing f xs = Inr ys"
proof (induction xs)
  case Nil
  then show ?case by simp
next
  case (Cons x xs)
  then obtain b where b: "f x = Inr b" by auto
  from Cons obtain ys where "filter_throwing f xs = Inr ys" by auto
  with b show ?case by simp
qed

lemma a_ts_returns:
  "matchesGlob rel ''a.ts'' =
     Inr (rel = ''a.ts'' \<or> suffix ''/a.ts'' rel \<or> basename rel = ''a.ts'')"
  by (simp add: matchesGlob_def trim_def is_ws_def Let_def)

lemma include_star_ts: "\<exists>b. isIncluded rel [''*.ts''] = Inr b"
  by (auto simp: isIncluded_def star_ts_returns split: bool.splits)

lemma except_a_ts:
  "isExcluded rel [''a.ts''] =
     Inr (rel = ''a.ts'' \<or> suffix ''/a.ts'' rel \<or> basename rel = ''a.ts'')"
  by (simp add: isExcluded_def a_ts_returns split: bool.splits)

lemma apply_filters_Inr:
  assumes "apply_filters paths inc exc = Inr r"
  shows "r = filter (\<lambda>p. \<not> isDefaultExcluded p \<and> isIncluded p inc = Inr True
                          \<and> isExcluded p exc = Inr False) paths"
proof -
  from assms obtain included where
    i: "filter_throwing (\<lambda>rel. isIncluded rel inc) (filter (\<lambda>rel. \<not> isDefaultExcluded rel) paths)
          = Inr included"
    and e: "filter_throwing
          (\<lambda>rel. case isExcluded rel exc of Inl e \<Rightarrow> Inl e | Inr b \<Rightarrow> Inr (\<not> b)) included = Inr r"
    by (auto simp: apply_filters_def Let_def split: sum.splits)
  have "(case isExcluded p exc of Inl e \<Rightarrow> Inl e | Inr b \<Rightarrow> Inr (\<not> b)) = Inr True
          \<longleftrightarrow> isExcluded p exc = Inr False" for p
    by (auto split: sum.splits)
  with filter_throwing_Inr [OF i] filter_throwing_Inr [OF e] show ?thesis
    by (simp add: conj_commute conj_left_commute cong: conj_cong)
qed

lemma some_matches_True:
  "some_matches p pats = Inr True \<Longrightarrow> \<exists>pat \<in> set pats. matchesGlob p pat = Inr True"
  by (induction pats) (auto split: sum.splits bool.splits)

lemma some_matches_False:
  "some_matches p pats = Inr False \<longleftrightarrow> (\<forall>pat \<in> set pats. matchesGlob p pat = Inr False)"
  by (induction pats) (auto split: sum.splits bool.splits)

lemma filter_throwing_defined:
  "filter_throwing f xs = Inr ys \<Longrightarrow> x \<in> set xs \<Longrightarrow> \<exists>b. f x = Inr b"
  by (induction xs arbitrary: ys) (auto split: sum.splits)

lemma isExcluded_False:
  "isExcluded p exc = Inr False \<longleftrightarrow> (\<forall>pat \<in> set exc. matchesGlob p pat = Inr False)"
  by (cases exc) (simp_all add: isExcluded_def some_matches_False del: some_matches.simps)

lemma isIncluded_True:
  assumes "isIncluded p inc = Inr b"
  shows "b \<longleftrightarrow> inc = [] \<or> (\<exists>pat \<in> set inc. matchesGlob p pat = Inr True)"
proof (cases "inc = []")
  case True
  with assms show ?thesis by (simp add: isIncluded_def)
next
  case False
  with assms have s: "some_matches p inc = Inr b" by (simp add: isIncluded_def)
  show ?thesis
  proof (cases b)
    case True
    with s False show ?thesis using some_matches_True [of p inc] by simp
  next
    case False
    with s have "\<forall>pat \<in> set inc. matchesGlob p pat = Inr False"
      by (simp add: some_matches_False)
    with False \<open>inc \<noteq> []\<close> show ?thesis by auto
  qed
qed

lemma apply_filters_included_defined:
  assumes "apply_filters paths inc exc = Inr r" "p \<in> set paths" "\<not> isDefaultExcluded p"
  shows "\<exists>b. isIncluded p inc = Inr b"
proof -
  from assms(1) obtain included where
    "filter_throwing (\<lambda>rel. isIncluded rel inc) (filter (\<lambda>rel. \<not> isDefaultExcluded rel) paths)
          = Inr included"
    by (auto simp: apply_filters_def Let_def split: sum.splits)
  from filter_throwing_defined [OF this, of p] assms(2,3) show ?thesis by simp
qed

lemma apply_filters_by_patterns:
  assumes "apply_filters paths inc exc = Inr r"
  shows "r = filter (\<lambda>p. \<not> isDefaultExcluded p
                \<and> (inc = [] \<or> (\<exists>pat \<in> set inc. matchesGlob p pat = Inr True))
                \<and> (\<forall>pat \<in> set exc. matchesGlob p pat = Inr False)) paths"
proof -
  have "(\<not> isDefaultExcluded p \<and> isIncluded p inc = Inr True \<and> isExcluded p exc = Inr False)
      \<longleftrightarrow> (\<not> isDefaultExcluded p
                \<and> (inc = [] \<or> (\<exists>pat \<in> set inc. matchesGlob p pat = Inr True))
                \<and> (\<forall>pat \<in> set exc. matchesGlob p pat = Inr False))"
    if "p \<in> set paths" for p
  proof (cases "isDefaultExcluded p")
    case True
    then show ?thesis by simp
  next
    case False
    from apply_filters_included_defined [OF assms that False]
    obtain b where b: "isIncluded p inc = Inr b" by blast
    from isIncluded_True [OF b] b False show ?thesis
      by (simp add: isExcluded_False)
  qed
  then have "filter (\<lambda>p. \<not> isDefaultExcluded p \<and> isIncluded p inc = Inr True
                          \<and> isExcluded p exc = Inr False) paths
      = filter (\<lambda>p. \<not> isDefaultExcluded p
                \<and> (inc = [] \<or> (\<exists>pat \<in> set inc. matchesGlob p pat = Inr True))
                \<and> (\<forall>pat \<in> set exc. matchesGlob p pat = Inr False)) paths"
    by (intro filter_cong) auto
  with apply_filters_Inr [OF assms] show ?thesis by simp
qed

lemma include_rejects_first:
  assumes "\<not> isDefaultExcluded q" "inc \<noteq> []" "\<forall>pat \<in> set inc. matchesGlob q pat = Inr False"
  shows "apply_filters [q] inc exc = Inr []"
proof -
  from assms(3) have "some_matches q inc = Inr False" by (simp add: some_matches_False)
  with assms(1,2) show ?thesis by (simp add: apply_filters_def isIncluded_def)
qed

text \<open>
  C6. The pipeline runs its three pattern stages in the order default exclusion, include,
  except. When it returns, its result is the list of the paths that have no
  default-excluded segment, match some include pattern (when there is one) and match no
  except pattern, in their order. A path with a default-excluded segment is in no result
  and is dropped before any pattern is looked at; a path that no include pattern matches is
  dropped before any except pattern is looked at. With the include list \<^verbatim>\<open>*.ts\<close> and the
  except list \<^verbatim>\<open>a.ts\<close> the pipeline always returns, and \<^verbatim>\<open>a.ts\<close> is not in its result
  although the include pattern matches it.
\<close>

theorem filter_order:
  "(\<forall>r. apply_filters paths inc exc = Inr r \<longrightarrow>
      r = filter (\<lambda>p. \<not> isDefaultExcluded p
                \<and> (inc = [] \<or> (\<exists>pat \<in> set inc. matchesGlob p pat = Inr True))
                \<and> (\<forall>pat \<in> set exc. matchesGlob p pat = Inr False)) paths) \<and>
   (\<forall>r p. apply_filters paths inc exc = Inr r \<and> isDefaultExcluded p \<longrightarrow> p \<notin> set r) \<and>
   (isDefaultExcluded q \<longrightarrow> apply_filters [q] inc exc = Inr []) \<and>
   (\<not> isDefaultExcluded q \<and> inc \<noteq> [] \<and> (\<forall>pat \<in> set inc. matchesGlob q pat = Inr False) \<longrightarrow>
      apply_filters [q] inc exc = Inr []) \<and>
   (\<exists>r. apply_filters paths [''*.ts''] [''a.ts''] = Inr r \<and> ''a.ts'' \<notin> set r) \<and>
   matchesGlob ''a.ts'' ''*.ts'' = Inr True"
proof (intro conjI allI impI)
  fix r
  assume "apply_filters paths inc exc = Inr r"
  then show "r = filter (\<lambda>p. \<not> isDefaultExcluded p
                \<and> (inc = [] \<or> (\<exists>pat \<in> set inc. matchesGlob p pat = Inr True))
                \<and> (\<forall>pat \<in> set exc. matchesGlob p pat = Inr False)) paths"
    by (rule apply_filters_by_patterns)
next
  fix r p
  assume "apply_filters paths inc exc = Inr r \<and> isDefaultExcluded p"
  then show "p \<notin> set r" using apply_filters_Inr [of paths inc exc r] by auto
next
  assume "isDefaultExcluded q"
  then show "apply_filters [q] inc exc = Inr []" by (simp add: apply_filters_def)
next
  assume "\<not> isDefaultExcluded q \<and> inc \<noteq> [] \<and> (\<forall>pat \<in> set inc. matchesGlob q pat = Inr False)"
  then show "apply_filters [q] inc exc = Inr []" using include_rejects_first by blast
next
  let ?kept = "filter (\<lambda>rel. \<not> isDefaultExcluded rel) paths"
  obtain included where i: "filter_throwing (\<lambda>rel. isIncluded rel [''*.ts'']) ?kept = Inr included"
    using filter_throwing_total [of ?kept "\<lambda>rel. isIncluded rel [''*.ts'']"] include_star_ts
    by blast
  obtain r where r: "filter_throwing
      (\<lambda>rel. case isExcluded rel [''a.ts''] of Inl e \<Rightarrow> Inl e | Inr b \<Rightarrow> Inr (\<not> b)) included = Inr r"
    using filter_throwing_total [of included
        "\<lambda>rel. case isExcluded rel [''a.ts''] of Inl e \<Rightarrow> Inl e | Inr b \<Rightarrow> Inr (\<not> b)"]
    by (auto simp: except_a_ts)
  from i r have a: "apply_filters paths [''*.ts''] [''a.ts''] = Inr r"
    by (simp add: apply_filters_def)
  have "''a.ts'' \<notin> set r"
    using apply_filters_Inr [OF a] by (simp add: except_a_ts)
  with a show "\<exists>r. apply_filters paths [''*.ts''] [''a.ts''] = Inr r \<and> ''a.ts'' \<notin> set r"
    by blast
next
  show "matchesGlob ''a.ts'' ''*.ts'' = Inr True" by (simp add: glob_eval)
qed

lemmas filter_eval = apply_filters_def isIncluded_def isExcluded_def isDefaultExcluded_def
  DEFAULT_EXCLUDE_SEGMENTS_def

theorem filter_order_witness:
  "apply_filters [''node_modules/x.ts'', ''a.ts'', ''b.ts'', ''c.md''] [''*.ts''] [''a.ts'']
     = Inr [''b.ts''] \<and>
   matchesGlob ''node_modules/x.ts'' ''**/*.ts'' = Inr True \<and>
   apply_filters [''node_modules/x.ts''] [''**/*.ts''] [] = Inr [] \<and>
   apply_filters [''node_modules/x.ts''] [''?*''] [] = Inr [] \<and>
   apply_filters [''c.ts''] [''?*''] [] = Inl SyntaxError \<and>
   apply_filters [''c.md''] [''*.ts''] [''?*''] = Inr [] \<and>
   apply_filters [''c.ts''] [''*.ts''] [''?*''] = Inl SyntaxError"
proof -
  have d: "isDefaultExcluded ''node_modules/x.ts''" "\<not> isDefaultExcluded ''c.md''"
    by (simp_all add: isDefaultExcluded_def DEFAULT_EXCLUDE_SEGMENTS_def SLASH_def BSL_def)
  have m: "\<forall>pat \<in> set [''*.ts'']. matchesGlob ''c.md'' pat = Inr False"
    by (simp add: glob_eval)
  have e1: "apply_filters [''node_modules/x.ts'', ''a.ts'', ''b.ts'', ''c.md''] [''*.ts''] [''a.ts'']
     = Inr [''b.ts'']"
    by (simp add: filter_eval glob_eval Let_def suffix_to_prefix)
  have e2: "matchesGlob ''node_modules/x.ts'' ''**/*.ts'' = Inr True"
    by (simp add: glob_eval)
  have e3: "apply_filters [''node_modules/x.ts''] [''**/*.ts''] [] = Inr []"
    using filter_order [of "[]" "[''**/*.ts'']" "[]" "''node_modules/x.ts''",
        THEN conjunct2, THEN conjunct2, THEN conjunct1] d(1) by blast
  have e4: "apply_filters [''node_modules/x.ts''] [''?*''] [] = Inr []"
    using filter_order [of "[]" "[''?*'']" "[]" "''node_modules/x.ts''",
        THEN conjunct2, THEN conjunct2, THEN conjunct1] d(1) by blast
  have e5: "apply_filters [''c.ts''] [''?*''] [] = Inl SyntaxError"
    by (simp add: filter_eval glob_eval)
  have e6: "apply_filters [''c.md''] [''*.ts''] [''?*''] = Inr []"
    using filter_order [of "[]" "[''*.ts'']" "[''?*'']" "''c.md''",
        THEN conjunct2, THEN conjunct2, THEN conjunct2, THEN conjunct1] d(2) m by blast
  have e7: "apply_filters [''c.ts''] [''*.ts''] [''?*''] = Inl SyntaxError"
    by (simp add: filter_eval glob_eval)
  from e1 e2 e3 e4 e5 e6 e7 show ?thesis by blast
qed

section \<open>The change-set provider\<close>

lemma split_on_not_Nil: "split_on P s \<noteq> []"
  by (induction s) (auto split: list.splits)

lemma split_on_append:
  "P c \<Longrightarrow> split_on P (a @ c # b) = split_on P a @ split_on P b"
  by (induction a) (auto split: list.splits simp: split_on_not_Nil)

lemma split_on_none: "\<forall>c \<in> set s. \<not> P c \<Longrightarrow> split_on P s = [s]"
  by (induction s) auto

lemma split_lines_append: "split_lines (a @ NL # b) = split_lines a @ split_lines b"
  by (simp add: split_lines_def split_on_append)

lemma split_lines_single: "NL \<notin> set s \<Longrightarrow> split_lines s = [s]"
  using split_on_none [of s "\<lambda>c. c = NL"] by (auto simp: split_lines_def)










section \<open>The path collector\<close>

lemma add_path_ok:
  "collector_ok st \<Longrightarrow> collector_ok (add_path rel st) \<and>
     set (collected (add_path rel st)) = insert rel (set (collected st))"
  by (auto simp: collector_ok_def add_path_def)

lemma add_dir_files_ok:
  "collector_ok st \<Longrightarrow> collector_ok (add_dir_files pjoin dirRel fs st) \<and>
     set (collected (add_dir_files pjoin dirRel fs st)) =
       set (collected st) \<union> set (map (\<lambda>f. if dirRel \<noteq> [] then pjoin dirRel f else f) fs)"
proof (induction fs arbitrary: st)
  case Nil
  then show ?case by simp
next
  case (Cons f fs)
  from add_path_ok [OF Cons.prems, of "if dirRel \<noteq> [] then pjoin dirRel f else f"]
    Cons.IH [of "add_path (if dirRel \<noteq> [] then pjoin dirRel f else f) st"]
  show ?case by auto
qed

lemma collect_step_ok:
  assumes "collector_ok st"
  shows "collector_ok (case t of
          Missing \<Rightarrow> st\<lparr>warnings := warnings st @ [m1]\<rparr>
        | IsFile rel \<Rightarrow> add_path rel st
        | IsDir dirRel entries \<Rightarrow>
            add_dir_files pjoin dirRel (listFilesRecursive pjoin entries []) st
        | IsOther \<Rightarrow> st\<lparr>warnings := warnings st @ [m2]\<rparr>) \<and>
     set (collected (case t of
          Missing \<Rightarrow> st\<lparr>warnings := warnings st @ [m1]\<rparr>
        | IsFile rel \<Rightarrow> add_path rel st
        | IsDir dirRel entries \<Rightarrow>
            add_dir_files pjoin dirRel (listFilesRecursive pjoin entries []) st
        | IsOther \<Rightarrow> st\<lparr>warnings := warnings st @ [m2]\<rparr>)) =
       set (collected st) \<union> set (arg_files pjoin t)"
proof (cases t)
  case Missing
  with assms show ?thesis by (simp add: collector_ok_def arg_files_def)
next
  case (IsFile rel)
  with add_path_ok [OF assms, of rel] show ?thesis by (simp add: arg_files_def)
next
  case (IsDir dirRel entries)
  with add_dir_files_ok [OF assms, of pjoin dirRel "listFilesRecursive pjoin entries []"]
  show ?thesis by (simp add: arg_files_def)
next
  case IsOther
  with assms show ?thesis by (simp add: collector_ok_def arg_files_def)
qed

lemma collect_loop_ok:
  "collector_ok st \<Longrightarrow> collector_ok (collect_loop pjoin resolve args st) \<and>
     set (collected (collect_loop pjoin resolve args st)) =
       set (collected st) \<union> (\<Union>arg \<in> set args. set (arg_files pjoin (resolve arg)))"
proof (induction args arbitrary: st)
  case Nil
  then show ?case by simp
next
  case (Cons arg args)
  let ?st = "case resolve arg of
          Missing \<Rightarrow> st\<lparr>warnings := warnings st @ [''Warning: skipping missing path: '' @ arg]\<rparr>
        | IsFile rel \<Rightarrow> add_path rel st
        | IsDir dirRel entries \<Rightarrow>
            add_dir_files pjoin dirRel (listFilesRecursive pjoin entries []) st
        | IsOther \<Rightarrow>
            st\<lparr>warnings := warnings st @ [''Warning: skipping non-file non-dir: '' @ arg]\<rparr>"
  from collect_step_ok [OF Cons.prems, where t = "resolve arg" and pjoin = pjoin]
  have ok: "collector_ok ?st"
    and s: "set (collected ?st) = set (collected st) \<union> set (arg_files pjoin (resolve arg))"
    by blast+
  from Cons.IH [OF ok] s show ?case by auto
qed

lemma count_list_distinct: "distinct xs \<Longrightarrow> x \<in> set xs \<Longrightarrow> count_list xs x = 1"
  by (induction xs) auto

text \<open>
  C8. The result of the collector has no duplicates, is sorted, holds exactly the paths
  that the arguments contribute, and holds each of them once, also when several arguments
  contribute it.
\<close>

theorem collectPaths_distinct_sorted:
  "distinct (fst (collectPaths pjoin resolve args)) \<and>
   sorted (fst (collectPaths pjoin resolve args)) \<and>
   set (fst (collectPaths pjoin resolve args)) =
     (\<Union>arg \<in> set args. set (arg_files pjoin (resolve arg))) \<and>
   (\<forall>arg \<in> set args. \<forall>p \<in> set (arg_files pjoin (resolve arg)).
      count_list (fst (collectPaths pjoin resolve args)) p = 1)"
proof -
  let ?st = "collect_loop pjoin resolve args \<lparr>seen = {}, collected = [], warnings = []\<rparr>"
  have "collector_ok \<lparr>seen = {}, collected = [], warnings = []\<rparr>"
    by (simp add: collector_ok_def)
  from collect_loop_ok [OF this, of pjoin resolve args]
  have d: "distinct (collected ?st)"
    and s: "set (collected ?st) = (\<Union>arg \<in> set args. set (arg_files pjoin (resolve arg)))"
    by (auto simp: collector_ok_def)
  have r: "fst (collectPaths pjoin resolve args) = sort (collected ?st)"
    by (simp add: collectPaths_def Let_def)
  have d': "distinct (sort (collected ?st))" using d by simp
  have "count_list (sort (collected ?st)) p = 1" if "p \<in> set (collected ?st)" for p
    using that d' by (simp add: count_list_distinct)
  with d s show ?thesis unfolding r by auto
qed

theorem collectPaths_distinct_sorted_witness:
  "collectPaths posix_join demo_tree [''src'', ''src/a.ts'', ''nope''] =
     ([''src/a.ts'', ''src/b.ts'', ''src/sub/z.ts''], [''Warning: skipping missing path: nope'']) \<and>
   count_list (fst (collectPaths posix_join demo_tree [''src'', ''src/a.ts'', ''nope''])) ''src/a.ts'' = 1"
proof -
  have e: "collectPaths posix_join demo_tree [''src'', ''src/a.ts'', ''nope''] =
     ([''src/a.ts'', ''src/b.ts'', ''src/sub/z.ts''], [''Warning: skipping missing path: nope''])"
    by code_simp
  have m: "''src/a.ts'' \<in> set (arg_files posix_join (demo_tree ''src/a.ts''))"
    by (simp add: arg_files_def demo_tree_def)
  from collectPaths_distinct_sorted [of posix_join demo_tree "[''src'', ''src/a.ts'', ''nope'']"] m
  have "count_list (fst (collectPaths posix_join demo_tree [''src'', ''src/a.ts'', ''nope''])) ''src/a.ts'' = 1"
    by simp
  with e show ?thesis by blast
qed

section \<open>The run and the blocks\<close>

text \<open>
  C9. When the candidate paths are found, the pattern stages return and no path that is
  left is a regular file, the run prints the notice to the standard output, ends with
  exit code 0, creates no directory and writes no file.
\<close>

theorem nothing_to_do:
  assumes "candidate_paths w a = Inr (ps, warned)"
    and "apply_filters ps (includeList a) (exceptList a) = Inr filtered"
    and "filter (is_file w) filtered = []"
  shows "main w a = \<lparr>outcome = Exit 0, stdout = [''No files to merge after filtering.''],
     stderr = warned, made_dirs = [], written = []\<rparr>"
  using assms by (simp add: main_def)

theorem nothing_to_do_witness:
  "main demo_world demo_args =
     \<lparr>outcome = Exit 0, stdout = [''No files to merge after filtering.''],
      stderr = [''Warning: skipping missing path: gone''], made_dirs = [], written = []\<rparr>"
proof -
  have c: "candidate_paths demo_world demo_args =
      Inr ([''pkg/node_modules/dep.js''], [''Warning: skipping missing path: gone''])"
    by (simp add: candidate_paths_def demo_world_def demo_args_def collectPaths_def
        add_path_def posix_join_def)
  have f: "apply_filters [''pkg/node_modules/dep.js''] (includeList demo_args) (exceptList demo_args)
      = Inr []"
    by (simp add: apply_filters_def isDefaultExcluded_def DEFAULT_EXCLUDE_SEGMENTS_def
        SLASH_def BSL_def demo_args_def)
  show ?thesis using nothing_to_do [OF c f] by simp
qed

lemma split_lines_Nil: "split_lines [] = [[]]"
  by (simp add: split_lines_def)

lemma split_on_snoc:
  "\<not> P c \<Longrightarrow> split_on P (s @ [c]) = butlast (split_on P s) @ [last (split_on P s) @ [c]]"
  by (induction s) (auto split: list.splits simp: split_on_not_Nil)

lemma FENCE_single: "split_lines FENCE = [FENCE]"
  by (simp add: split_lines_single FENCE_def NL_def)

lemma split_lines_block:
  "split_lines (render_block ext rel content) =
     split_lines (FENCE @ opening_of ext rel) @ split_lines content @ [FENCE, []]"
proof -
  have "render_block ext rel content =
      (FENCE @ opening_of ext rel) @ NL # (content @ NL # (FENCE @ NL # []))"
    by (simp add: render_block_def)
  then show ?thesis
    by (simp only: split_lines_append FENCE_single split_lines_Nil) simp
qed

text \<open>
  C10. The block of a file is the fence, the header, a line feed, the content, a line
  feed, the fence, a line feed. Its lines are those of the first line, those of the
  content, the closing fence and an empty string. When the content ends with a line feed
  its last line is empty, which is the blank line before the closing fence; when it
  does not, the last line of the content is not empty and the fence follows on a line
  of its own.
\<close>

theorem render_block_shape:
  "render_block ext rel content =
     FENCE @ opening_of ext rel @ [NL] @ content @ [NL] @ FENCE @ [NL] \<and>
   split_lines (render_block ext rel content) =
     split_lines (FENCE @ opening_of ext rel) @ split_lines content @ [FENCE, []] \<and>
   (content \<noteq> [] \<and> last content = NL \<longrightarrow>
      split_lines content = split_lines (butlast content) @ [[]]) \<and>
   (content \<noteq> [] \<and> last content \<noteq> NL \<longrightarrow> last (split_lines content) \<noteq> [])"
proof (intro conjI impI)
  show "render_block ext rel content =
     FENCE @ opening_of ext rel @ [NL] @ content @ [NL] @ FENCE @ [NL]"
    by (simp add: render_block_def)
  show "split_lines (render_block ext rel content) =
     split_lines (FENCE @ opening_of ext rel) @ split_lines content @ [FENCE, []]"
    by (rule split_lines_block)
next
  assume "content \<noteq> [] \<and> last content = NL"
  then have "content = butlast content @ NL # []"
    by (metis append_butlast_last_id)
  then have "split_lines content = split_lines (butlast content) @ split_lines []"
    by (metis split_lines_append)
  then show "split_lines content = split_lines (butlast content) @ [[]]"
    by (simp add: split_lines_Nil)
next
  assume a: "content \<noteq> [] \<and> last content \<noteq> NL"
  then have "content = butlast content @ [last content]" by simp
  then have "split_lines content =
      butlast (split_lines (butlast content))
      @ [last (split_lines (butlast content)) @ [last content]]"
    using split_on_snoc [of "\<lambda>c. c = NL" "last content" "butlast content"] a
    by (simp add: split_lines_def)
  then show "last (split_lines content) \<noteq> []" by simp
qed

theorem render_block_shape_witness:
  "split_lines (render_block (\<lambda>p. ''.ts'') ''a.ts'' (''x'' @ [NL])) =
     [FENCE @ ''typescript a.ts'', ''x'', [], FENCE, []] \<and>
   split_lines (render_block (\<lambda>p. []) ''LICENSE'' ''x'') = [FENCE @ ''LICENSE'', ''x'', FENCE, []]"
  using render_block_shape [of "\<lambda>p. ''.ts''" "''a.ts''" "''x'' @ [NL]"]
    render_block_shape [of "\<lambda>p. []" "''LICENSE''" "''x''"]
  by (simp add: split_lines_def opening_of_def EXT_TO_LANG_def FENCE_def NL_def)

section \<open>The document assembler\<close>

lemma join_Cons_Cons: "join sep ((c # l) # ls) = c # join sep (l # ls)"
  by (cases ls) auto

lemma join_split_on: "join [NL] (split_on (\<lambda>c. c = NL) s) = s"
proof (induction s)
  case Nil
  then show ?case by simp
next
  case (Cons c cs)
  obtain l ls where l: "split_on (\<lambda>c. c = NL) cs = l # ls"
    using split_on_not_Nil [of "\<lambda>c. c = NL" cs] by (cases "split_on (\<lambda>c. c = NL) cs") auto
  with Cons show ?case by (auto simp: join_Cons_Cons)
qed

lemma join_split_lines: "join [NL] (split_lines s) = s"
  by (simp add: split_lines_def join_split_on)

lemma split_lines_join:
  "xs \<noteq> [] \<Longrightarrow> split_lines (join [NL] xs) = concat (map split_lines xs)"
  by (induction xs rule: induct_list012) (simp_all add: split_lines_append)

lemma split_lines_join_single:
  assumes "xs \<noteq> []" "\<forall>x \<in> set xs. NL \<notin> set x"
  shows "split_lines (join [NL] xs) = xs"
proof -
  have "concat (map split_lines ys) = ys" if "\<forall>x \<in> set ys. NL \<notin> set x" for ys
    using that by (induction ys) (simp_all add: split_lines_single)
  with assms show ?thesis by (simp add: split_lines_join)
qed

lemma digit_not_NL: "d < 10 \<Longrightarrow> digit_char d \<noteq> NL"
proof -
  assume "d < 10"
  then have "digit_char d \<in> set ''0123456789''"
    unfolding digit_char_def by (intro nth_mem) simp
  then show ?thesis by (auto simp: NL_def)
qed

lemma string_of_nat_no_NL: "NL \<notin> set (string_of_nat n)"
proof (induction n rule: string_of_nat.induct)
  case (1 n)
  show ?case
  proof (cases "n < 10")
    case True
    then show ?thesis using digit_not_NL [of n] by (auto simp: string_of_nat.simps [of n])
  next
    case False
    with 1 show ?thesis using digit_not_NL [of "n mod 10"]
      by (auto simp: string_of_nat.simps [of n])
  qed
qed

lemma toc_row_no_NL: "NL \<notin> set (relPath e) \<Longrightarrow> NL \<notin> set (toc_row e)"
  using string_of_nat_no_NL [of "startLine e"] string_of_nat_no_NL [of "endLine e"]
  by (simp add: toc_row_def NL_def)

lemma build_entries_length: "length (build_entries zs cur) = length zs"
  by (induction zs cur rule: build_entries.induct) (simp_all add: Let_def)

lemma build_entries_relPath: "map relPath (build_entries zs cur) = map fst zs"
  by (induction zs cur rule: build_entries.induct) (simp_all add: Let_def)

lemma build_entries_nth:
  "i < length zs \<Longrightarrow>
   build_entries zs cur ! i =
     \<lparr>relPath = fst (zs ! i),
      startLine = cur + length (concat (map (\<lambda>z. split_lines (snd z)) (take i zs))),
      endLine = cur + length (concat (map (\<lambda>z. split_lines (snd z)) (take i zs)))
                + length (split_lines (snd (zs ! i))) - 1\<rparr>"
proof (induction zs cur arbitrary: i rule: build_entries.induct)
  case (1 cur)
  then show ?case by simp
next
  case (2 p block rest cur)
  show ?case
  proof (cases i)
    case 0
    then show ?thesis by (simp add: Let_def)
  next
    case (Suc j)
    with 2 show ?thesis by (simp add: Let_def add.assoc)
  qed
qed

lemma drop_append_length: "drop (length a + k) (a @ b) = drop k b"
  by simp

lemma concat_nth_split:
  "i < length xss \<Longrightarrow>
   concat xss = concat (take i xss) @ xss ! i @ concat (drop (Suc i) xss)"
  by (metis append_take_drop_id concat_append Cons_nth_drop_Suc concat.simps(2))

lemma tocHeader_lines:
  "split_lines tocHeader =
     [''# File Index'', [], ''| Path | Start | End |'', ''|------|-------|-----|'']"
  by (simp add: tocHeader_def split_lines_def NL_def)

lemma split_lines_length_pos: "0 < length (split_lines s)"
  by (simp add: split_lines_def split_on_not_Nil)

lemma concat_take_drop:
  "i < length xss \<Longrightarrow>
   take (length (xss ! i)) (drop (length (concat (take i xss))) (concat xss)) = xss ! i"
proof -
  assume i: "i < length xss"
  have "concat xss = concat (take i xss) @ concat (drop i xss)"
    by (metis append_take_drop_id concat_append)
  moreover have "concat (drop i xss) = xss ! i @ concat (drop (Suc i) xss)"
    using i by (metis Cons_nth_drop_Suc concat.simps(2))
  ultimately show ?thesis by simp
qed


lemma assemble_unfold:
  "assemble ext files =
     (tocHeader @ [NL]
        @ join [NL] (map toc_row
            (build_entries (zip (map fst files) (blocks_of ext files)) (length files + 6)))
        @ [NL, NL] @ join [NL] (blocks_of ext files),
      build_entries (zip (map fst files) (blocks_of ext files)) (length files + 6))"
proof -
  have six: "Suc (Suc (Suc (Suc (Suc (Suc n))))) = n + 6" for n by simp
  show ?thesis by (simp add: assemble_def Let_def tocHeader_lines blocks_of_def six)
qed

lemma entries_nth:
  assumes "i < length files"
  shows "build_entries (zip (map fst files) (blocks_of ext files)) cur ! i =
     \<lparr>relPath = fst (files ! i),
      startLine = cur + length (concat (take i (map split_lines (blocks_of ext files)))),
      endLine = cur + length (concat (take i (map split_lines (blocks_of ext files))))
                + length (split_lines (blocks_of ext files ! i)) - 1\<rparr>"
proof -
  let ?zs = "zip (map fst files) (blocks_of ext files)"
  have len: "length (blocks_of ext files) = length files" by (simp add: blocks_of_def)
  have i: "i < length ?zs" using assms len by simp
  have s: "map snd ?zs = blocks_of ext files" using len by simp
  have "map (\<lambda>z. split_lines (snd z)) (take i ?zs) = take i (map split_lines (map snd ?zs))"
    by (simp add: take_map)
  then have m: "map (\<lambda>z. split_lines (snd z)) (take i ?zs)
      = take i (map split_lines (blocks_of ext files))"
    using s by simp
  show ?thesis
    unfolding build_entries_nth [OF i] m using assms len by simp
qed

lemma output_lines:
  assumes "files \<noteq> []" "\<forall>(p, c) \<in> set files. NL \<notin> set p"
    and "assemble ext files = (output, entries)"
  shows "split_lines output =
     split_lines tocHeader @ map toc_row entries @ [[]]
       @ concat (map split_lines (blocks_of ext files))"
proof -
  let ?bs = "blocks_of ext files"
  from assms(3) have e: "entries = build_entries (zip (map fst files) ?bs) (length files + 6)"
    and o: "output = tocHeader @ NL # (join [NL] (map toc_row entries)
                @ NL # ([] @ NL # join [NL] ?bs))"
    by (auto simp: assemble_unfold)
  have len: "length ?bs = length files" by (simp add: blocks_of_def)
  have rp: "map relPath entries = map fst files"
    unfolding e using len by (simp add: build_entries_relPath)
  have "NL \<notin> set (relPath r)" if "r \<in> set entries" for r
  proof -
    from that have "relPath r \<in> set (map relPath entries)" by simp
    then have "relPath r \<in> fst ` set files" unfolding rp by simp
    then obtain pc where "pc \<in> set files" "relPath r = fst pc" by auto
    with assms(2) show ?thesis by (cases pc) auto
  qed
  then have rows: "\<forall>r \<in> set (map toc_row entries). NL \<notin> set r"
    by (auto simp: toc_row_no_NL)
  have "length entries = length files"
    unfolding e using len by (simp add: build_entries_length)
  with assms(1) have ne: "map toc_row entries \<noteq> []" by auto
  have bne: "?bs \<noteq> []" using assms(1) by (simp add: blocks_of_def)
  show ?thesis
    unfolding o split_lines_append split_lines_join_single [OF ne rows]
      split_lines_join [OF bne] split_lines_Nil
    by simp
qed

text \<open>
  C1, as amended. When no selected path holds a line feed, every index row names its
  file, and the lines \<open>startLine\<close> to \<open>endLine\<close> of the document, joined by line feeds,
  are exactly the rendered block of that file, the line feed that ends the block
  included. So \<open>endLine\<close> is a line of the document, it is the empty line after the
  closing fence, and the closing fence is the line before it.
\<close>

theorem index_rows_roundtrip:
  assumes "\<forall>(p, c) \<in> set files. NL \<notin> set p"
    and "i < length files"
    and "assemble ext files = (output, entries)"
  shows "length entries = length files \<and>
     relPath (entries ! i) = fst (files ! i) \<and>
     join [NL] (lines_between (startLine (entries ! i)) (endLine (entries ! i)) output)
       = render_block ext (fst (files ! i)) (snd (files ! i)) \<and>
     endLine (entries ! i) \<le> length (split_lines output) \<and>
     split_lines output ! (endLine (entries ! i) - 1) = [] \<and>
     split_lines output ! (endLine (entries ! i) - 2) = FENCE"
proof -
  let ?bs = "blocks_of ext files"
  let ?ls = "map split_lines ?bs"
  let ?pre = "split_lines tocHeader @ map toc_row entries @ [[]]"
  let ?k = "length (concat (take i ?ls))"
  let ?n = "length (split_lines (?bs ! i))"
  have ne: "files \<noteq> []" using assms(2) by auto
  have len: "length ?bs = length files" by (simp add: blocks_of_def)
  from assms(3) have e: "entries = build_entries (zip (map fst files) ?bs) (length files + 6)"
    by (simp add: assemble_unfold)
  have le: "length entries = length files"
    unfolding e using len by (simp add: build_entries_length)
  have pre: "length ?pre = length files + 5" by (simp add: tocHeader_lines le)
  have lines: "split_lines output = ?pre @ concat ?ls"
    using output_lines [OF ne assms(1,3)] by simp
  have ent: "entries ! i = \<lparr>relPath = fst (files ! i),
      startLine = length files + 6 + ?k, endLine = length files + 6 + ?k + ?n - 1\<rparr>"
    unfolding e by (rule entries_nth [OF assms(2)])
  have npos: "0 < ?n" by (rule split_lines_length_pos)
  have bi: "?bs ! i = render_block ext (fst (files ! i)) (snd (files ! i))"
    using assms(2) by (simp add: blocks_of_def case_prod_beta)
  have i': "i < length ?ls" using assms(2) len by simp
  have tk: "take ?n (drop ?k (concat ?ls)) = split_lines (?bs ! i)"
    using concat_take_drop [OF i'] i' by simp
  have s1: "startLine (entries ! i) - 1 = length ?pre + ?k" using pre by (simp add: ent)
  have n1: "endLine (entries ! i) + 1 - startLine (entries ! i) = ?n"
    using npos by (simp add: ent)
  have "lines_between (startLine (entries ! i)) (endLine (entries ! i)) output
      = take ?n (drop (length ?pre + ?k) (?pre @ concat ?ls))"
    by (simp only: lines_between_def s1 n1 lines)
  also have "\<dots> = take ?n (drop ?k (concat ?ls))" by (simp only: drop_append_length)
  also have "\<dots> = split_lines (?bs ! i)" by (rule tk)
  finally have lb: "lines_between (startLine (entries ! i)) (endLine (entries ! i)) output
      = split_lines (?bs ! i)" .
  have li: "?ls ! i = split_lines (?bs ! i)" using assms(2) len by simp
  have cc: "concat ?ls = concat (take i ?ls) @ split_lines (?bs ! i) @ concat (drop (Suc i) ?ls)"
    using concat_nth_split [OF i'] by (simp only: li)
  obtain body where body: "split_lines (?bs ! i) = body @ [FENCE, []]"
    unfolding bi split_lines_block by simp
  then have n: "?n = length body + 2" by simp
  let ?front = "?pre @ concat (take i ?ls) @ body"
  have whole: "split_lines output = ?front @ FENCE # [] # concat (drop (Suc i) ?ls)"
    unfolding lines using cc body by simp
  have fl: "length ?front = length files + 5 + ?k + length body" using pre by simp
  have el: "endLine (entries ! i) = length ?front + 2" using ent fl n by simp
  have 1: "endLine (entries ! i) \<le> length (split_lines output)"
    by (simp add: el whole)
  have 2: "split_lines output ! (endLine (entries ! i) - 1) = []"
    using nth_append_length_plus [of ?front "FENCE # [] # concat (drop (Suc i) ?ls)" 1]
    by (simp only: el whole) simp
  have 3: "split_lines output ! (endLine (entries ! i) - 2) = FENCE"
    by (simp only: el whole diff_add_inverse2 nth_append_length)
  have 4: "join [NL] (lines_between (startLine (entries ! i)) (endLine (entries ! i)) output)
       = render_block ext (fst (files ! i)) (snd (files ! i))"
    by (simp only: lb bi join_split_lines)
  have 5: "relPath (entries ! i) = fst (files ! i)" by (simp add: ent)
  from le 5 4 1 2 3 show ?thesis by blast
qed

lemma lang_no_NL: "map_of EXT_TO_LANG e = Some l \<Longrightarrow> NL \<notin> set l"
  by (auto simp: EXT_TO_LANG_def NL_def split: if_splits)

lemma opening_no_NL: "NL \<notin> set rel \<Longrightarrow> NL \<notin> set (opening_of ext rel)"
proof -
  assume r: "NL \<notin> set rel"
  have "NL \<noteq> CHR '' ''" by (simp add: NL_def)
  with r show ?thesis
    by (auto simp: opening_of_def Let_def split: option.splits dest: lang_no_NL)
qed

text \<open>The first row records the start line \<open>N + 6\<close> for every non-empty list of \<open>N\<close>
  files.\<close>

lemma first_start_line:
  assumes "files \<noteq> []" "assemble ext files = (output, entries)"
  shows "startLine (hd entries) = length files + 6"
proof -
  let ?bs = "blocks_of ext files"
  have len: "length ?bs = length files" by (simp add: blocks_of_def)
  from assms(2) have e: "entries = build_entries (zip (map fst files) ?bs) (length files + 6)"
    by (simp add: assemble_unfold)
  have le: "length entries = length files"
    unfolding e using len by (simp add: build_entries_length)
  have "0 < length files" using assms(1) by simp
  from entries_nth [OF this, of ext "length files + 6"]
  have "startLine (entries ! 0) = length files + 6" unfolding e by simp
  moreover have "entries \<noteq> []" using le assms(1) by auto
  ultimately show ?thesis by (simp add: hd_conv_nth)
qed

text \<open>When no path holds a line feed, the first \<open>N + 5\<close> lines of the document are the
  four lines of the preamble, the \<open>N\<close> rows and an empty line, and line \<open>N + 6\<close> is the
  opening fence of the first file with its header.\<close>

lemma first_block_line:
  assumes "files \<noteq> []"
    and "\<forall>(p, c) \<in> set files. NL \<notin> set p"
    and "assemble ext files = (output, entries)"
  shows "length (split_lines tocHeader) = 4 \<and>
     length entries = length files \<and>
     take (length files + 5) (split_lines output)
       = split_lines tocHeader @ map toc_row entries @ [[]] \<and>
     startLine (hd entries) = length files + 6 \<and>
     split_lines output ! (length files + 6 - 1) = FENCE @ opening_of ext (fst (hd files))"
proof -
  let ?bs = "blocks_of ext files"
  let ?pre = "split_lines tocHeader @ map toc_row entries @ [[]]"
  obtain p c rest where f: "files = (p, c) # rest" using assms(1) by (cases files) auto
  have len: "length ?bs = length files" by (simp add: blocks_of_def)
  from assms(3) have e: "entries = build_entries (zip (map fst files) ?bs) (length files + 6)"
    by (simp add: assemble_unfold)
  have le: "length entries = length files"
    unfolding e using len by (simp add: build_entries_length)
  have pre: "length ?pre = length files + 5" by (simp add: tocHeader_lines le)
  have lines: "split_lines output = ?pre @ concat (map split_lines ?bs)"
    using output_lines [OF assms] by simp
  have tk: "take (length files + 5) (split_lines output) = ?pre"
    unfolding lines pre [symmetric] by simp
  have "0 < length files" using assms(1) by simp
  from entries_nth [OF this, of ext "length files + 6"]
  have "startLine (entries ! 0) = length files + 6" unfolding e by simp
  moreover have "entries \<noteq> []" using le assms(1) by auto
  ultimately have st: "startLine (hd entries) = length files + 6" by (simp add: hd_conv_nth)
  have "NL \<notin> set p" using assms(2) f by auto
  then have "NL \<notin> set (FENCE @ opening_of ext p)"
    using opening_no_NL [of p ext] by (simp add: FENCE_def NL_def)
  then have first: "split_lines (FENCE @ opening_of ext p) = [FENCE @ opening_of ext p]"
    by (rule split_lines_single)
  have "concat (map split_lines ?bs) =
      (FENCE @ opening_of ext p) # (split_lines c @ [FENCE, []]
         @ concat (map split_lines (blocks_of ext rest)))"
    unfolding f by (simp add: blocks_of_def split_lines_block first)
  then have "split_lines output ! (length ?pre) = FENCE @ opening_of ext p"
    unfolding lines by (simp only: nth_append_length)
  then have nth: "split_lines output ! (length files + 6 - 1) = FENCE @ opening_of ext (fst (hd files))"
    unfolding pre f by simp
  have "length (split_lines tocHeader) = 4" by (simp add: tocHeader_lines)
  with le tk st nth show ?thesis by blast
qed

lemmas assemble_eval = assemble_def render_block_def opening_of_def EXT_TO_LANG_def FENCE_def
  tocHeader_def split_lines_def NL_def toc_row_def lines_between_def digit_char_def

text \<open>The claim C1 as written says that \<open>endLine\<close> is the line of the closing fence. For two
  files with the contents \<^verbatim>\<open>x\<close> and \<^verbatim>\<open>y\<close> the first row ends at line 11, which is the
  empty line between the blocks; the closing fence is line 10.\<close>

theorem assemble_end_after_fence:
  "snd (assemble (\<lambda>p. []) [(''a'', ''x''), (''b'', ''y'')]) =
     [\<lparr>relPath = ''a'', startLine = 8, endLine = 11\<rparr>,
      \<lparr>relPath = ''b'', startLine = 12, endLine = 15\<rparr>] \<and>
   split_lines (fst (assemble (\<lambda>p. []) [(''a'', ''x''), (''b'', ''y'')])) ! (11 - 1) = [] \<and>
   split_lines (fst (assemble (\<lambda>p. []) [(''a'', ''x''), (''b'', ''y'')])) ! (11 - 1) \<noteq> FENCE \<and>
   split_lines (fst (assemble (\<lambda>p. []) [(''a'', ''x''), (''b'', ''y'')])) ! (10 - 1) = FENCE"
  by (simp add: assemble_eval string_of_nat.simps)

text \<open>
  C2. The claim is that for every non-empty list of \<open>N\<close> files the index takes
  \<open>4 + N + 1\<close> lines and the opening fence of the first file is on line \<open>N + 6\<close>, the
  recorded start line. The code counts one line for each row and writes the path into the
  row as it is. For a file whose name holds a line feed the row takes two lines: the
  first row records the start line 7, but line 7 of the document is the empty line after
  the index and the opening fence is on line 8.
\<close>

theorem assemble_newline_path:
  "startLine (hd (snd (assemble (\<lambda>p. []) newline_files))) = length newline_files + 6 \<and>
   take 7 (split_lines (fst (assemble (\<lambda>p. []) newline_files))) =
     split_lines tocHeader @ [''| a'', ''b | 7 | 11 |'', []] \<and>
   split_lines (fst (assemble (\<lambda>p. []) newline_files)) ! (length newline_files + 6 - 1) = [] \<and>
   split_lines (fst (assemble (\<lambda>p. []) newline_files)) ! (length newline_files + 6) = FENCE @ ''a''"
  by (simp add: assemble_eval string_of_nat.simps newline_files_def)

theorem index_rows_roundtrip_witness:
  "snd (assemble demo_ext demo_files) =
     [\<lparr>relPath = ''a.ts'', startLine = 8, endLine = 12\<rparr>,
      \<lparr>relPath = ''b'', startLine = 13, endLine = 16\<rparr>] \<and>
   join [NL] (lines_between 13 16 (fst (assemble demo_ext demo_files))) = render_block demo_ext ''b'' ''y'' \<and>
   split_lines (fst (assemble demo_ext demo_files)) ! (16 - 1) = [] \<and>
   split_lines (fst (assemble demo_ext demo_files)) ! (16 - 2) = FENCE"
proof -
  have e: "snd (assemble demo_ext demo_files) =
     [\<lparr>relPath = ''a.ts'', startLine = 8, endLine = 12\<rparr>,
      \<lparr>relPath = ''b'', startLine = 13, endLine = 16\<rparr>]"
    by (simp add: assemble_eval string_of_nat.simps demo_ext_def demo_files_def)
  have h1: "\<forall>(p, c) \<in> set demo_files. NL \<notin> set p" by (simp add: demo_files_def NL_def)
  have h2: "1 < length demo_files" by (simp add: demo_files_def)
  have h3: "assemble demo_ext demo_files
      = (fst (assemble demo_ext demo_files), snd (assemble demo_ext demo_files))" by simp
  from index_rows_roundtrip [OF h1 h2 h3] show ?thesis
    unfolding e by (simp add: demo_files_def)
qed

lemma first_block_line_example:
  "startLine (hd (snd (assemble demo_ext demo_files))) = 8 \<and>
   take 7 (split_lines (fst (assemble demo_ext demo_files))) =
     split_lines tocHeader @ [''| a.ts | 8 | 12 |'', ''| b | 13 | 16 |'', []] \<and>
   split_lines (fst (assemble demo_ext demo_files)) ! 7 = FENCE @ ''typescript a.ts''"
proof -
  have e: "snd (assemble demo_ext demo_files) =
     [\<lparr>relPath = ''a.ts'', startLine = 8, endLine = 12\<rparr>,
      \<lparr>relPath = ''b'', startLine = 13, endLine = 16\<rparr>]"
    by (simp add: assemble_eval string_of_nat.simps demo_ext_def demo_files_def)
  have h0: "demo_files \<noteq> []" by (simp add: demo_files_def)
  have h1: "\<forall>(p, c) \<in> set demo_files. NL \<notin> set p" by (simp add: demo_files_def NL_def)
  have h3: "assemble demo_ext demo_files
      = (fst (assemble demo_ext demo_files), snd (assemble demo_ext demo_files))" by simp
  have o: "opening_of demo_ext (fst (hd demo_files)) = ''typescript a.ts''"
    by (simp add: opening_of_def demo_ext_def demo_files_def EXT_TO_LANG_def)
  have l: "length demo_files = 2" by (simp add: demo_files_def)
  from first_block_line [OF h0 h1 h3] show ?thesis
    unfolding e o l by (simp add: toc_row_def string_of_nat.simps digit_char_def)
qed

end
